theory Spec2Isabelle
  imports Main "HOL-Library.Word" "HOL-Library.Sublist" "HOL-Library.AList"
    "HOL-Library.Multiset"
begin

unbundle bit_operations_syntax

section \<open>Data model (src/types.ts)\<close>

text \<open>
  \<open>NoteMeta\<close> has the fields \<open>id\<close>, \<open>title\<close>, \<open>created\<close> and \<open>updated\<close>; \<open>Note\<close> has
  the same four and \<open>content\<close> and \<open>htmlContent\<close>, so it is the record extension. The field
  \<open>id\<close> is written \<open>id'\<close>, since \<open>id\<close> is the identity function of HOL. Timestamps are the
  integers that \<open>Date.now()\<close> returns.
\<close>

record NoteMeta =
  id' :: string
  title :: string
  created :: int
  updated :: int

record Note = NoteMeta +
  content :: string
  htmlContent :: string

section \<open>The key-value namespace\<close>

text \<open>
  The platform's \<open>KVNamespace\<close>: each key holds a text value, optional metadata and an
  optional time to live. A value is either the text \<open>JSON.stringify(note)\<close> of a note, kept
  as the note it parses back to, or any other text. Eviction after the time to live is the
  platform's and is not modelled: every read below happens before any entry expires.
\<close>

datatype kv_value = JsonNote Note | Text string

record kv_entry =
  val :: kv_value
  metadata :: "NoteMeta option"
  expirationTtl :: "nat option"

type_synonym KVNamespace = "(string \<times> kv_entry) list"

datatype error = NotANote

definition kv_get :: "KVNamespace \<Rightarrow> string \<Rightarrow> kv_value option" where
  "kv_get kv key = map_option val (map_of kv key)"

text \<open>
  \<open>get(key, { type: 'json' })\<close>: null for a missing key, the parsed value otherwise. A text
  that is not the JSON of a note gives no \<open>Note\<close>; that outcome is the error.
\<close>

definition kv_get_json :: "KVNamespace \<Rightarrow> string \<Rightarrow> error + Note option" where
  "kv_get_json kv key =
     (case kv_get kv key of
        None \<Rightarrow> Inr None
      | Some (JsonNote n) \<Rightarrow> Inr (Some n)
      | Some (Text s) \<Rightarrow> Inl NotANote)"

definition kv_put ::
  "KVNamespace \<Rightarrow> string \<Rightarrow> kv_value \<Rightarrow> NoteMeta option \<Rightarrow> nat option \<Rightarrow> KVNamespace" where
  "kv_put kv key v m ttl =
     AList.update key \<lparr>val = v, metadata = m, expirationTtl = ttl\<rparr> kv"

definition kv_delete :: "KVNamespace \<Rightarrow> string \<Rightarrow> KVNamespace" where
  "kv_delete kv key = AList.delete key kv"

text \<open>
  \<open>list({ prefix })\<close>: the name and the metadata of every key that starts with the prefix.
  The platform fixes the order of the listing; the model lists in the order of the store,
  and no property below depends on the order. The source reads one listing and does not
  page, so a namespace with more keys than one listing holds is outside the model.
\<close>

definition kv_list :: "KVNamespace \<Rightarrow> string \<Rightarrow> (string \<times> NoteMeta option) list" where
  "kv_list kv p = map (\<lambda>(k, e). (k, metadata e)) (filter (\<lambda>(k, e). prefix p k) kv)"

record Env =
  NOTES_KV :: KVNamespace
  ADMIN_PASSWORD :: string

section \<open>Platform and library functions\<close>

text \<open>
  \<open>crypto.getRandomValues\<close>: the random bytes a call draws, as the stream it reads them from.
\<close>

type_synonym byte = "8 word"
type_synonym random = "nat \<Rightarrow> byte"

text \<open>The options that the sources pass to the renderer and to the sanitizer.\<close>

record marked_options =
  gfm :: bool
  breaks :: bool

record IOptions =
  allowedTags :: "string list"
  allowedAttributes :: "(string \<times> string list) list"
  allowedSchemes :: "string list"
  disallowedTagsMode :: string

text \<open>
  \<open>marked\<close> and \<open>nanoid\<close> are npm packages, and so is \<open>sanitize-html\<close>, from which the
  sources take the default options: the renderer, the generator of identifiers and the
  default options are parameters of the model. Nothing is assumed of the renderer: its
  output is any text. The generator draws its characters from the random bytes.
\<close>

record Libs =
  marked_parse :: "marked_options \<Rightarrow> string \<Rightarrow> string"
  sanitizeHtml_defaults :: IOptions
  nanoid :: "random \<Rightarrow> nat \<Rightarrow> string"

subsection \<open>The sanitizer\<close>

text \<open>
  Modelled from the spec: \<open>sanitizeHtml\<close> is the npm package \<open>sanitize-html\<close>, which is not
  part of the sources. The spec has it as a pure function from HTML text and a policy to
  HTML text that permits a fixed allow-list of tags and a fixed allow-list of attributes
  per tag, permits only the listed URL schemes, and discards any tag or attribute not on
  the allow-list, event-handler attributes and inline scripts included, rather than
  escaping it. The model reads the text into tokens, filters the tokens by the policy and
  writes the remaining tokens back as text.
\<close>

text \<open>
  Modelled from the spec: the tokens of HTML text. A tag starts at a \<open><\<close> that a letter
  follows, or \<open>/\<close> and a letter; its name runs to the next space, \<open>/\<close> or \<open>>\<close>; names of
  tags and of attributes are read in lower case. Any other text is character data.
\<close>

datatype html_token = Chars string | StartTag string "(string \<times> string) list" | EndTag string

definition lower :: "char \<Rightarrow> char" where
  "lower c =
     (case map_of (zip ''ABCDEFGHIJKLMNOPQRSTUVWXYZ'' ''abcdefghijklmnopqrstuvwxyz'') c of
        None \<Rightarrow> c
      | Some d \<Rightarrow> d)"

definition is_letter :: "char \<Rightarrow> bool" where
  "is_letter c \<longleftrightarrow> c \<in> set ''ABCDEFGHIJKLMNOPQRSTUVWXYZabcdefghijklmnopqrstuvwxyz''"

definition is_space :: "char \<Rightarrow> bool" where
  "is_space c \<longleftrightarrow> c \<in> set [CHR '' '', CHR 0x09, CHR 0x0A, CHR 0x0C, CHR 0x0D]"

definition tag_char :: "char \<Rightarrow> bool" where
  "tag_char c \<longleftrightarrow> \<not> is_space c \<and> c \<noteq> CHR ''/'' \<and> c \<noteq> CHR ''>''"

definition attr_char :: "char \<Rightarrow> bool" where
  "attr_char c \<longleftrightarrow>
     \<not> is_space c \<and> c \<noteq> CHR ''/'' \<and> c \<noteq> CHR ''>'' \<and> c \<noteq> CHR ''='' \<and>
     c \<noteq> CHR 0x22 \<and> c \<noteq> CHR 0x27"

text \<open>
  Modelled from the spec: the value of an attribute, after the \<open>=\<close>: quoted, up to the
  matching quote, or bare, up to the next space or \<open>>\<close>. A quote that is never closed
  gives no tag.
\<close>

definition attr_value :: "string \<Rightarrow> (string \<times> string) option" where
  "attr_value s =
     (if s \<noteq> [] \<and> (hd s = CHR 0x22 \<or> hd s = CHR 0x27)
      then (if hd s \<in> set (tl s)
            then Some (takeWhile (\<lambda>x. x \<noteq> hd s) (tl s),
                       tl (dropWhile (\<lambda>x. x \<noteq> hd s) (tl s)))
            else None)
      else Some (takeWhile (\<lambda>x. \<not> is_space x \<and> x \<noteq> CHR ''>'') s,
                 dropWhile (\<lambda>x. \<not> is_space x \<and> x \<noteq> CHR ''>'') s))"

text \<open>
  What is left after a value is no longer than the text it was read from, so the
  recursion of \<open>attributes\<close> ends.
\<close>

lemma length_dropWhile_tl: "length (dropWhile P (tl s)) \<le> length s"
proof -
  have "length (dropWhile P (tl s)) \<le> length (tl s)" by (rule length_dropWhile_le)
  also have "\<dots> \<le> length s" by simp
  finally show ?thesis .
qed

lemma attr_value_length:
  assumes "attr_value s = Some (v, r)"
  shows "length r \<le> length s"
proof (cases "s \<noteq> [] \<and> (hd s = CHR 0x22 \<or> hd s = CHR 0x27)")
  case True
  with assms have "r = tl (dropWhile (\<lambda>x. x \<noteq> hd s) (tl s))"
    by (auto simp: attr_value_def split: if_splits)
  then have "length r \<le> length (dropWhile (\<lambda>x. x \<noteq> hd s) (tl s))" by simp
  also have "\<dots> \<le> length s" by (rule length_dropWhile_tl)
  finally show ?thesis .
next
  case False
  with assms have "r = dropWhile (\<lambda>x. \<not> is_space x \<and> x \<noteq> CHR ''>'') s"
    by (auto simp: attr_value_def split: if_splits)
  then show ?thesis by (simp add: length_dropWhile_le)
qed

lemma dropWhile_shorter: "length (dropWhile P cs) < Suc (length cs)"
  by (simp add: length_dropWhile_le less_Suc_eq_le)

lemma attr_value_shorter:
  assumes "attr_value (tl (dropWhile P cs)) = Some (v, r)"
  shows "length r < Suc (length cs)"
proof -
  have "length r \<le> length (tl (dropWhile P cs))" by (rule attr_value_length [OF assms])
  also have "\<dots> \<le> length (dropWhile P cs)" by simp
  also have "\<dots> \<le> length cs" by (rule length_dropWhile_le)
  finally show ?thesis by simp
qed

text \<open>
  Modelled from the spec: the attributes of a start tag, up to the \<open>>\<close> that closes it, and
  the text after it. A tag that is never closed is no tag.
\<close>

function attributes :: "string \<Rightarrow> ((string \<times> string) list \<times> string) option" where
  "attributes [] = None"
| "attributes (c # cs) =
     (if c = CHR ''>'' then Some ([], cs)
      else if \<not> attr_char c then attributes cs
      else (let a = map lower (takeWhile attr_char (c # cs));
                r = dropWhile attr_char (c # cs)
            in if r \<noteq> [] \<and> hd r = CHR ''=''
               then (case attr_value (tl r) of
                       None \<Rightarrow> None
                     | Some (v, r') \<Rightarrow>
                         (case attributes r' of
                            None \<Rightarrow> None
                          | Some (as, rest) \<Rightarrow> Some ((a, v) # as, rest)))
               else (case attributes r of
                       None \<Rightarrow> None
                     | Some (as, rest) \<Rightarrow> Some ((a, []) # as, rest))))"
  by pat_completeness auto
termination
  by (relation "measure length") (auto simp: dropWhile_shorter attr_value_shorter)

declare attributes.simps [simp del]

text \<open>
  The cases of \<open>attributes\<close>. What it leaves is shorter than the text it read, and so is
  what \<open>tag\<close> leaves: the recursion of \<open>tokenize\<close> ends.
\<close>

lemma attributes_gt: "attributes (CHR ''>'' # cs) = Some ([], cs)"
  by (subst attributes.simps) simp

lemma attributes_skip:
  "c \<noteq> CHR ''>'' \<Longrightarrow> \<not> attr_char c \<Longrightarrow> attributes (c # cs) = attributes cs"
  by (subst attributes.simps) simp

lemma attributes_value:
  assumes "c \<noteq> CHR ''>''" "attr_char c"
    and "dropWhile attr_char (c # cs) = CHR ''='' # r"
    and "a = map lower (takeWhile attr_char (c # cs))"
  shows "attributes (c # cs) =
     (case attr_value r of
        None \<Rightarrow> None
      | Some (v, r') \<Rightarrow>
          (case attributes r' of
             None \<Rightarrow> None
           | Some (as, rest) \<Rightarrow> Some ((a, v) # as, rest)))"
  using assms by (subst attributes.simps) (simp add: Let_def split: option.splits)

lemma attributes_bare:
  assumes "c \<noteq> CHR ''>''" "attr_char c"
    and "dropWhile attr_char (c # cs) = r" "r = [] \<or> hd r \<noteq> CHR ''=''"
    and "a = map lower (takeWhile attr_char (c # cs))"
  shows "attributes (c # cs) =
     (case attributes r of
        None \<Rightarrow> None
      | Some (as, rest) \<Rightarrow> Some ((a, []) # as, rest))"
  using assms by (subst attributes.simps) (auto simp add: Let_def split: option.splits)

lemma attributes_shorter: "attributes s = Some (as, r) \<Longrightarrow> length r < length s"
proof (induction s arbitrary: as r rule: length_induct)
  case (1 s)
  note IH = "1.IH" [rule_format]
  show ?case
  proof (cases s)
    case Nil
    with "1.prems" show ?thesis by (simp add: attributes.simps)
  next
    case (Cons c cs)
    show ?thesis
    proof (cases "c = CHR ''>''")
      case True
      with Cons "1.prems" show ?thesis by (simp add: attributes_gt)
    next
      case gt: False
      show ?thesis
      proof (cases "attr_char c")
        case False
        with gt Cons "1.prems" have "attributes cs = Some (as, r)"
          by (simp add: attributes_skip)
        from IH [OF _ this] Cons show ?thesis by simp
      next
        case True
        define d where "d = dropWhile attr_char (c # cs)"
        have d: "length d \<le> length cs" using True by (simp add: d_def length_dropWhile_le)
        show ?thesis
        proof (cases "d = [] \<or> hd d \<noteq> CHR ''=''")
          case bare: True
          from attributes_bare [OF gt True d_def [symmetric] bare refl] "1.prems" Cons
          obtain as' where r: "attributes d = Some (as', r)"
            by (auto split: option.splits)
          from IH [OF _ r] d Cons show ?thesis by simp
        next
          case False
          then obtain r0 where r0: "d = CHR ''='' # r0" by (cases d) auto
          from attributes_value [OF gt True r0 [unfolded d_def] refl] "1.prems" Cons
          obtain v r' as' where v: "attr_value r0 = Some (v, r')"
            and r: "attributes r' = Some (as', r)"
            by (auto split: option.splits)
          from attr_value_length [OF v] r0 d have "length r' < length s"
            using Cons by simp
          from IH [OF this r] attr_value_length [OF v] r0 d Cons show ?thesis by simp
        qed
      qed
    qed
  qed
qed

text \<open>
  Modelled from the spec: what follows a \<open><\<close>: a tag and the text after it, or nothing
  when no tag starts here.
\<close>

definition tag :: "string \<Rightarrow> (html_token \<times> string) option" where
  "tag s =
     (if s \<noteq> [] \<and> hd s = CHR ''/''
      then (let n = map lower (takeWhile tag_char (tl s));
                r = dropWhile (\<lambda>x. x \<noteq> CHR ''>'') (dropWhile tag_char (tl s))
            in if n \<noteq> [] \<and> is_letter (hd n) \<and> r \<noteq> [] then Some (EndTag n, tl r) else None)
      else (let n = map lower (takeWhile tag_char s)
            in if n \<noteq> [] \<and> is_letter (hd n)
               then (case attributes (dropWhile tag_char s) of
                       None \<Rightarrow> None
                     | Some (as, rest) \<Rightarrow> Some (StartTag n as, rest))
               else None))"

lemma tag_shorter: "tag s = Some (t, r) \<Longrightarrow> length r \<le> length s"
proof (cases "s \<noteq> [] \<and> hd s = CHR ''/''")
  case True
  assume "tag s = Some (t, r)"
  with True have "r = tl (dropWhile (\<lambda>x. x \<noteq> CHR ''>'') (dropWhile tag_char (tl s)))"
    by (auto simp: tag_def Let_def split: if_splits)
  then have "length r \<le> length (dropWhile (\<lambda>x. x \<noteq> CHR ''>'') (dropWhile tag_char (tl s)))"
    by simp
  also have "\<dots> \<le> length (dropWhile tag_char (tl s))" by (rule length_dropWhile_le)
  also have "\<dots> \<le> length s" by (rule length_dropWhile_tl)
  finally show ?thesis .
next
  case False
  assume "tag s = Some (t, r)"
  with False obtain as where "attributes (dropWhile tag_char s) = Some (as, r)"
    by (auto simp: tag_def Let_def split: if_splits option.splits)
  from attributes_shorter [OF this] have "length r < length (dropWhile tag_char s)" .
  also have "\<dots> \<le> length s" by (rule length_dropWhile_le)
  finally show ?thesis by simp
qed

text \<open>
  Modelled from the spec: the tokens of a text. A \<open><\<close> that starts no tag is character
  data.
\<close>

function tokenize :: "string \<Rightarrow> html_token list" where
  "tokenize [] = []"
| "tokenize (c # cs) =
     (if c = CHR ''<''
      then (case tag cs of
              None \<Rightarrow> Chars [c] # tokenize cs
            | Some (t, rest) \<Rightarrow> t # tokenize rest)
      else Chars (takeWhile (\<lambda>x. x \<noteq> CHR ''<'') (c # cs)) #
           tokenize (dropWhile (\<lambda>x. x \<noteq> CHR ''<'') (c # cs)))"
  by pat_completeness auto
termination
  by (relation "measure length") (auto simp: length_dropWhile_le less_Suc_eq_le tag_shorter)

declare tokenize.simps [simp del]

text \<open>
  Modelled from the spec: the text of a token. Character data is written with \<open><\<close> and
  \<open>>\<close> escaped, so it starts no tag; the value of an attribute is written between double
  quotes, with the double quote escaped as well.
\<close>

definition escape_text :: "string \<Rightarrow> string" where
  "escape_text s =
     concat (map (\<lambda>c. if c = CHR ''<'' then ''&lt;'' else if c = CHR ''>'' then ''&gt;'' else [c]) s)"

definition escape_value :: "string \<Rightarrow> string" where
  "escape_value s =
     concat (map (\<lambda>c. if c = CHR ''<'' then ''&lt;'' else if c = CHR ''>'' then ''&gt;''
                        else if c = CHR 0x22 then ''&quot;'' else [c]) s)"

definition render_attribute :: "string \<times> string \<Rightarrow> string" where
  "render_attribute av =
     '' '' @ fst av @ ''='' @ [CHR 0x22] @ escape_value (snd av) @ [CHR 0x22]"

fun render_token :: "html_token \<Rightarrow> string" where
  "render_token (Chars s) = escape_text s"
| "render_token (StartTag n as) = ''<'' @ n @ concat (map render_attribute as) @ ''>''"
| "render_token (EndTag n) = ''</'' @ n @ ''>''"

definition serialize :: "html_token list \<Rightarrow> string" where
  "serialize ts = concat (map render_token ts)"

text \<open>
  Modelled from the spec: the scheme of a URL, when it has one, and the attributes kept:
  an attribute stays when the policy lists it for the tag, and, for the URL attributes
  \<open>href\<close> and \<open>src\<close>, when the URL has no scheme or one the policy allows.
\<close>

definition url_scheme :: "string \<Rightarrow> string option" where
  "url_scheme v =
     (let u = filter (\<lambda>x. \<not> is_space x) v;
          s = takeWhile (\<lambda>x. x \<notin> set '':/?#'') u;
          r = dropWhile (\<lambda>x. x \<notin> set '':/?#'') u
      in if r \<noteq> [] \<and> hd r = CHR '':'' then Some (map lower s) else None)"

definition keep_attribute :: "IOptions \<Rightarrow> string \<Rightarrow> string \<times> string \<Rightarrow> bool" where
  "keep_attribute opts n av =
     (case map_of (allowedAttributes opts) n of
        None \<Rightarrow> False
      | Some as \<Rightarrow>
          fst av \<in> set as \<and>
          (fst av \<in> set [''href'', ''src''] \<longrightarrow>
             (case url_scheme (snd av) of
                None \<Rightarrow> True
              | Some sch \<Rightarrow> sch \<in> set (allowedSchemes opts))))"

text \<open>
  Modelled from the spec: the filter. A tag on the allow-list stays, with the attributes
  kept. Under \<open>disallowedTagsMode = 'discard'\<close> any other tag is dropped and the text in it
  stays, but for \<open>script\<close>, which is dropped with everything up to its end tag; under any
  other mode the tag is written as character data, and so escaped.
\<close>

fun sanitize_tokens :: "IOptions \<Rightarrow> bool \<Rightarrow> html_token list \<Rightarrow> html_token list" where
  "sanitize_tokens opts script [] = []"
| "sanitize_tokens opts True (t # ts) =
     (if t = EndTag ''script'' then sanitize_tokens opts False ts
      else sanitize_tokens opts True ts)"
| "sanitize_tokens opts False (Chars s # ts) = Chars s # sanitize_tokens opts False ts"
| "sanitize_tokens opts False (StartTag n as # ts) =
     (if n \<in> set (allowedTags opts)
      then StartTag n (filter (keep_attribute opts n) as) # sanitize_tokens opts False ts
      else if disallowedTagsMode opts = ''discard''
      then sanitize_tokens opts (n = ''script'') ts
      else Chars (render_token (StartTag n as)) # sanitize_tokens opts False ts)"
| "sanitize_tokens opts False (EndTag n # ts) =
     (if n \<in> set (allowedTags opts) then EndTag n # sanitize_tokens opts False ts
      else if disallowedTagsMode opts = ''discard'' then sanitize_tokens opts False ts
      else Chars (render_token (EndTag n)) # sanitize_tokens opts False ts)"

text \<open>Modelled from the spec: the sanitizer, from HTML text and a policy to HTML text.\<close>

definition sanitizeHtml :: "string \<Rightarrow> IOptions \<Rightarrow> string" where
  "sanitizeHtml dirty opts = serialize (sanitize_tokens opts False (tokenize dirty))"

section \<open>Note store (src/db.ts)\<close>

definition MARKED_OPTIONS :: marked_options where
  "MARKED_OPTIONS = \<lparr>gfm = True, breaks = True\<rparr>"

text \<open>
  The object spread \<open>{ ...defaults.allowedAttributes, 'img': [...], ... }\<close> keeps the
  default entries and sets the five listed ones, a later key replacing an earlier one.
\<close>

definition SANITIZE_OPTIONS :: "Libs \<Rightarrow> IOptions" where
  "SANITIZE_OPTIONS lib =
     \<lparr>allowedTags =
        allowedTags (sanitizeHtml_defaults lib) @ [''img'', ''h1'', ''h2'', ''h3''],
      allowedAttributes =
        AList.updates [''img'', ''a'', ''code'', ''pre'', ''span'']
          [[''src'', ''alt'', ''title''], [''href'', ''title'', ''target'', ''rel''],
           [''class''], [''class''], [''class'']]
          (allowedAttributes (sanitizeHtml_defaults lib)),
      allowedSchemes = [''http'', ''https'', ''mailto''],
      disallowedTagsMode = ''discard''\<rparr>"

text \<open>
  \<open>generateNoteId\<close> returns \<open>nanoid(8)\<close>; \<open>rnd\<close> is the random bytes that the call draws.
\<close>

definition generateNoteId :: "Libs \<Rightarrow> random \<Rightarrow> string" where
  "generateNoteId lib rnd = nanoid lib rnd 8"

definition getNote :: "Env \<Rightarrow> string \<Rightarrow> error + Note option" where
  "getNote env i = kv_get_json (NOTES_KV env) (''note:'' @ i)"

text \<open>
  \<open>saveNote\<close>, with the value of \<open>Date.now()\<close> as the argument \<open>now\<close>. The expression
  \<open>existing?.created || now\<close> is \<open>now\<close> when there is no existing note and when its
  \<open>created\<close> is falsy, which for an integer is 0.
\<close>

definition saveNote ::
  "Libs \<Rightarrow> Env \<Rightarrow> int \<Rightarrow> string \<Rightarrow> string \<Rightarrow> string \<Rightarrow> error + (Note \<times> Env)" where
  "saveNote lib env now i t c =
     (case getNote env i of
        Inl e \<Rightarrow> Inl e
      | Inr existing \<Rightarrow>
          (let rawHtml = marked_parse lib MARKED_OPTIONS c;
               html = sanitizeHtml rawHtml (SANITIZE_OPTIONS lib);
               note = \<lparr>id' = i, title = t,
                       created = (case existing of
                                    None \<Rightarrow> now
                                  | Some ex \<Rightarrow> if created ex \<noteq> 0 then created ex else now),
                       updated = now, content = c, htmlContent = html\<rparr>
           in Inr (note,
                   env\<lparr>NOTES_KV :=
                     kv_put (NOTES_KV env) (''note:'' @ i) (JsonNote note)
                       (Some \<lparr>id' = id' note, title = title note,
                              created = created note, updated = updated note\<rparr>)
                       None\<rparr>)))"

definition deleteNote :: "Env \<Rightarrow> string \<Rightarrow> error + (bool \<times> Env)" where
  "deleteNote env i =
     (case getNote env i of
        Inl e \<Rightarrow> Inl e
      | Inr None \<Rightarrow> Inr (False, env)
      | Inr (Some note) \<Rightarrow>
          Inr (True, env\<lparr>NOTES_KV := kv_delete (NOTES_KV env) (''note:'' @ i)\<rparr>))"

text \<open>
  \<open>Array.prototype.sort\<close> with a comparator: the sort is stable, so it is the insertion
  sort that puts an element before the first one it does not come after.
\<close>

fun insert_by :: "('a \<Rightarrow> 'a \<Rightarrow> int) \<Rightarrow> 'a \<Rightarrow> 'a list \<Rightarrow> 'a list" where
  "insert_by cmp x [] = [x]"
| "insert_by cmp x (y # ys) =
     (if cmp x y \<le> 0 then x # y # ys else y # insert_by cmp x ys)"

definition sort_by :: "('a \<Rightarrow> 'a \<Rightarrow> int) \<Rightarrow> 'a list \<Rightarrow> 'a list" where
  "sort_by cmp xs = foldr (insert_by cmp) xs []"

definition getAllNotes :: "Env \<Rightarrow> NoteMeta list" where
  "getAllNotes env =
     (let keys = kv_list (NOTES_KV env) ''note:'';
          metas = filter (\<lambda>meta. meta \<noteq> None) (map (\<lambda>key. snd key) keys)
      in sort_by (\<lambda>a b. created b - created a) (map the metas))"

definition getLatestNote :: "Env \<Rightarrow> error + Note option" where
  "getLatestNote env =
     (let notes = getAllNotes env
      in if length notes = 0 then Inr None else getNote env (id' (notes ! 0)))"

text \<open>\<open>Array.prototype.findIndex\<close>: the first index whose element passes, or -1.\<close>

fun findIndex :: "('a \<Rightarrow> bool) \<Rightarrow> 'a list \<Rightarrow> int" where
  "findIndex p [] = - 1"
| "findIndex p (x # xs) =
     (if p x then 0 else (let r = findIndex p xs in if r < 0 then - 1 else r + 1))"

definition getPreviousNoteId :: "Env \<Rightarrow> string \<Rightarrow> error + string option" where
  "getPreviousNoteId env currentId =
     (case getNote env currentId of
        Inl e \<Rightarrow> Inl e
      | Inr None \<Rightarrow> Inr None
      | Inr (Some currentNote) \<Rightarrow>
          (let notes = getAllNotes env;
               currentIndex = findIndex (\<lambda>n. id' n = currentId) notes
           in if currentIndex \<ge> 0 \<and> currentIndex < int (length notes) - 1
              then Inr (Some (id' (notes ! nat (currentIndex + 1))))
              else Inr None))"

definition getNextNoteId :: "Env \<Rightarrow> string \<Rightarrow> error + string option" where
  "getNextNoteId env currentId =
     (case getNote env currentId of
        Inl e \<Rightarrow> Inl e
      | Inr None \<Rightarrow> Inr None
      | Inr (Some currentNote) \<Rightarrow>
          (let notes = getAllNotes env;
               currentIndex = findIndex (\<lambda>n. id' n = currentId) notes
           in if currentIndex > 0
              then Inr (Some (id' (notes ! nat (currentIndex - 1))))
              else Inr None))"

section \<open>Session manager (src/auth.ts)\<close>

definition SESSION_PREFIX :: string where
  "SESSION_PREFIX = ''session:''"

definition SESSION_TTL :: nat where
  "SESSION_TTL = 60 * 60 * 24"

subsection \<open>Constant-time comparison\<close>

text \<open>
  A JavaScript string is modelled by \<^typ>\<open>string\<close>, the list of the bytes of its UTF-8
  form, so \<open>TextEncoder.encode\<close> reads each character as one byte of the \<open>Uint8Array\<close>.
  (A string with an unpaired surrogate has no UTF-8 form and is outside the model.)
\<close>

definition encode :: "string \<Rightarrow> byte list" where
  "encode s = map of_char s"

text \<open>
  \<open>buffer[i]\<close> as an operand of a bitwise operator, which works on 32-bit integers: the
  byte at the index, and 0 past the end, where the read gives \<open>undefined\<close>.
\<close>

definition byte_at :: "byte list \<Rightarrow> nat \<Rightarrow> 32 word" where
  "byte_at buffer i = (if i < length buffer then ucast (buffer ! i) else 0)"

text \<open>
  The loop \<open>for (let i = 0; i < aBuffer.length; i++) result |= aBuffer[i] ^ bBuffer[i]\<close>.
\<close>

function xor_loop :: "byte list \<Rightarrow> byte list \<Rightarrow> nat \<Rightarrow> 32 word \<Rightarrow> 32 word" where
  "xor_loop aBuffer bBuffer i result =
     (if i < length aBuffer
      then xor_loop aBuffer bBuffer (i + 1)
             (result OR (byte_at aBuffer i XOR byte_at bBuffer i))
      else result)"
  by pat_completeness auto
termination
  by (relation "measure (\<lambda>(aBuffer, bBuffer, i, result). length aBuffer - i)") auto

declare xor_loop.simps [simp del]

text \<open>
  \<open>secureCompare\<close>. The platform's \<open>crypto.subtle.digest('SHA-256', buffer)\<close> is the
  parameter \<open>digest\<close>. When the lengths differ the source runs the same loop over the two
  digests into a local \<open>result\<close> and then returns false.
\<close>

definition secureCompare :: "(byte list \<Rightarrow> byte list) \<Rightarrow> string \<Rightarrow> string \<Rightarrow> bool" where
  "secureCompare digest a b =
     (let aBuffer = encode a; bBuffer = encode b in
      if length aBuffer \<noteq> length bBuffer
      then (let aHash = digest aBuffer; bHash = digest bBuffer;
                result = xor_loop aHash bHash 0 0
            in False)
      else (let result = xor_loop aBuffer bBuffer 0 0 in result = 0))"

subsection \<open>Sessions\<close>

text \<open>
  Modelled from the spec: \<open>crypto.randomUUID\<close> is a function of the platform, not of the
  sources. The spec asks for "a random UUID-class value" of 128 bits: sixteen random bytes,
  the version and variant bits set, written as 32 hexadecimal digits in groups of 8, 4, 4, 4
  and 12 with hyphens between them.
\<close>

definition hex_digit :: "byte \<Rightarrow> char" where
  "hex_digit b = ''0123456789abcdef'' ! unat (b AND 15)"

definition hex_bytes :: "byte list \<Rightarrow> string" where
  "hex_bytes bs = concat (map (\<lambda>b. [hex_digit (drop_bit 4 b), hex_digit b]) bs)"

definition randomUUID :: "random \<Rightarrow> string" where
  "randomUUID rnd =
     (let r = map rnd [0..<16];
          b = r[6 := (r ! 6 AND 15) OR 64, 8 := (r ! 8 AND 63) OR 128]
      in hex_bytes (take 4 b) @ ''-'' @ hex_bytes (take 2 (drop 4 b)) @ ''-'' @
         hex_bytes (take 2 (drop 6 b)) @ ''-'' @ hex_bytes (take 2 (drop 8 b)) @ ''-'' @
         hex_bytes (drop 10 b))"

definition createSession :: "Env \<Rightarrow> random \<Rightarrow> string \<times> Env" where
  "createSession env rnd =
     (let token = randomUUID rnd
      in (token,
          env\<lparr>NOTES_KV :=
            kv_put (NOTES_KV env) (SESSION_PREFIX @ token) (Text ''valid'') None
              (Some SESSION_TTL)\<rparr>))"

text \<open>\<open>!token\<close> holds of the empty string.\<close>

definition validateSession :: "Env \<Rightarrow> string \<Rightarrow> bool" where
  "validateSession env token =
     (if token = [] then False
      else kv_get (NOTES_KV env) (SESSION_PREFIX @ token) = Some (Text ''valid''))"

definition deleteSession :: "Env \<Rightarrow> string \<Rightarrow> Env" where
  "deleteSession env token =
     (if token \<noteq> []
      then env\<lparr>NOTES_KV := kv_delete (NOTES_KV env) (SESSION_PREFIX @ token)\<rparr>
      else env)"

subsection \<open>The session cookie\<close>

text \<open>
  A request, as far as the code reads it: \<open>headers\<close> is the \<open>get\<close> of its header list.
\<close>

record Request =
  headers :: "string \<Rightarrow> string option"

text \<open>
  \<open>cookie.match(/session=([^;]+)/)\<close>: the leftmost position where \<open>session=\<close> is followed by
  at least one character other than \<open>;\<close>, and there the longest run of such characters.
\<close>

fun match_session :: "string \<Rightarrow> string option" where
  "match_session [] = None"
| "match_session (c # cs) =
     (let s = c # cs; g = takeWhile (\<lambda>x. x \<noteq> CHR '';'') (drop 8 s)
      in if prefix ''session='' s \<and> g \<noteq> [] then Some g else match_session cs)"

definition getSessionFromCookie :: "Request \<Rightarrow> string option" where
  "getSessionFromCookie request =
     (case headers request ''Cookie'' of
        None \<Rightarrow> None
      | Some cookie \<Rightarrow> if cookie = [] then None else match_session cookie)"

text \<open>
  The cookies of a Cookie header, to say which cookies a header has: the header is a list of
  pairs \<open>name=value\<close> separated by \<open>;\<close> and spaces.
\<close>

fun split_on :: "char \<Rightarrow> string \<Rightarrow> string list" where
  "split_on d [] = [[]]"
| "split_on d (c # cs) =
     (if c = d then [] # split_on d cs
      else (case split_on d cs of [] \<Rightarrow> [[c]] | w # ws \<Rightarrow> (c # w) # ws))"

definition cookie_pairs :: "string \<Rightarrow> (string \<times> string) list" where
  "cookie_pairs header =
     map (\<lambda>p. (let q = dropWhile (\<lambda>x. x = CHR '' '') p
               in (takeWhile (\<lambda>x. x \<noteq> CHR ''='') q,
                   drop 1 (dropWhile (\<lambda>x. x \<noteq> CHR ''='') q))))
       (split_on CHR '';'' header)"

section \<open>Notions used to state the properties\<close>

text \<open>The letters and the digits.\<close>

definition alphanumeric :: "char \<Rightarrow> bool" where
  "alphanumeric c \<longleftrightarrow>
     c \<in> set ''ABCDEFGHIJKLMNOPQRSTUVWXYZabcdefghijklmnopqrstuvwxyz0123456789''"

text \<open>
  The metadata that the namespace holds under the keys of notes, in the order of the keys.
\<close>

definition note_metas :: "Env \<Rightarrow> NoteMeta list" where
  "note_metas env =
     List.map_filter (\<lambda>(k, e). if prefix ''note:'' k then metadata e else None)
       (NOTES_KV env)"

text \<open>
  What every write of the sources keeps of the namespace: no key occurs twice, and the
  metadata under the key of a note carries the id that the key carries. The only writer
  under \<open>note:\<close> is \<open>saveNote\<close>, which stores the metadata of note \<open>id\<close> under
  \<open>note:id\<close>.
\<close>

definition store_ok :: "KVNamespace \<Rightarrow> bool" where
  "store_ok kv \<longleftrightarrow>
     distinct (map fst kv) \<and>
     list_all (\<lambda>(k, e). case metadata e of
                            None \<Rightarrow> True
                          | Some m \<Rightarrow> prefix ''note:'' k \<longrightarrow> k = ''note:'' @ id' m) kv"

text \<open>
  A token that the reader can produce: the name of a tag starts with a letter and has no
  space, \<open>/\<close> or \<open>>\<close>; the name of an attribute is not empty and has none of these, no
  \<open>=\<close> and no quote.
\<close>

fun wf_token :: "html_token \<Rightarrow> bool" where
  "wf_token (Chars s) = True"
| "wf_token (StartTag n as) =
     (n \<noteq> [] \<and> is_letter (hd n) \<and> list_all tag_char n \<and>
      list_all (\<lambda>av. fst av \<noteq> [] \<and> list_all attr_char (fst av)) as)"
| "wf_token (EndTag n) = (n \<noteq> [] \<and> is_letter (hd n) \<and> list_all tag_char n)"

text \<open>A token that the policy permits: the tag and each of its attributes are on the lists.\<close>

fun ok_token :: "IOptions \<Rightarrow> html_token \<Rightarrow> bool" where
  "ok_token opts (Chars s) = True"
| "ok_token opts (StartTag n as) =
     (n \<in> set (allowedTags opts) \<and>
      list_all (\<lambda>av. list_ex (\<lambda>e. fst e = n \<and> fst av \<in> set (snd e)) (allowedAttributes opts))
        as)"
| "ok_token opts (EndTag n) = (n \<in> set (allowedTags opts))"

text \<open>The tags of a token list.\<close>

fun is_tag :: "html_token \<Rightarrow> bool" where
  "is_tag (Chars s) = False"
| "is_tag (StartTag n as) = True"
| "is_tag (EndTag n) = True"

text \<open>A token as it is read back from its own text.\<close>

fun reread :: "html_token \<Rightarrow> html_token" where
  "reread (Chars s) = Chars s"
| "reread (StartTag n as) =
     StartTag (map lower n) (map (\<lambda>av. (map lower (fst av), escape_value (snd av))) as)"
| "reread (EndTag n) = EndTag (map lower n)"

text \<open>
  A script tag is a start or end tag named \<open>script\<close>; an event-handler attribute is an
  attribute whose name starts with \<open>on\<close>. A text has one when the reading of the text
  into tokens has one: the names are read in lower case, so \<open><SCRIPT>\<close> and \<open>onClick=\<close>
  count.
\<close>

fun script_token :: "html_token \<Rightarrow> bool" where
  "script_token (Chars s) = False"
| "script_token (StartTag n as) = (n = ''script'')"
| "script_token (EndTag n) = (n = ''script'')"

fun event_token :: "html_token \<Rightarrow> bool" where
  "event_token (Chars s) = False"
| "event_token (StartTag n as) = list_ex (\<lambda>av. prefix ''on'' (fst av)) as"
| "event_token (EndTag n) = False"

definition has_script_tag :: "string \<Rightarrow> bool" where
  "has_script_tag html = list_ex script_token (tokenize html)"

definition has_event_attribute :: "string \<Rightarrow> bool" where
  "has_event_attribute html = list_ex event_token (tokenize html)"

text \<open>
  A policy that permits no script tag and no event-handler attribute, in any spelling.
\<close>

definition safe_options :: "IOptions \<Rightarrow> bool" where
  "safe_options opts \<longleftrightarrow>
     list_all (\<lambda>n. map lower n \<noteq> ''script'') (allowedTags opts) \<and>
     list_all (\<lambda>e. list_all (\<lambda>a. \<not> prefix ''on'' (map lower a)) (snd e))
       (allowedAttributes opts)"

section \<open>Example states\<close>

text \<open>
  Libraries to run the model on. The renderer makes a heading of a first line that starts
  with \<open>#\<close> and a paragraph of any other text, and passes HTML in the text through, as
  Markdown does. The default options permit the tags of the spec's allow-list that
  \<open>SANITIZE_OPTIONS\<close> does not add itself; their attributes, schemes and mode are not those
  that \<open>SANITIZE_OPTIONS\<close> sets, so that the examples show what it sets. The generator of
  identifiers gives the character \<open>a\<close> for every byte.
\<close>

definition toy_libs :: Libs where
  "toy_libs =
     \<lparr>marked_parse =
        (\<lambda>opts s. if take 2 s = ''# ''
                   then ''<h1>'' @ takeWhile (\<lambda>x. x \<noteq> CHR 0x0A) (drop 2 s) @ ''</h1>'' @
                        dropWhile (\<lambda>x. x \<noteq> CHR 0x0A) (drop 2 s)
                   else ''<p>'' @ s @ ''</p>''),
      sanitizeHtml_defaults =
        \<lparr>allowedTags = [''p'', ''ul'', ''ol'', ''li'', ''blockquote'', ''code'', ''pre'', ''a''],
         allowedAttributes = [(''a'', [''href'']), (''li'', [''value''])],
         allowedSchemes = [''http''],
         disallowedTagsMode = ''escape''\<rparr>,
      nanoid = (\<lambda>rnd len. replicate len (CHR ''a''))\<rparr>"

text \<open>The entry that \<open>saveNote\<close> writes for a note: its key, its text and its metadata.\<close>

definition stored :: "Note \<Rightarrow> string \<times> kv_entry" where
  "stored n =
     (''note:'' @ id' n,
      \<lparr>val = JsonNote n,
       metadata = Some \<lparr>id' = id' n, title = title n, created = created n,
                         updated = updated n\<rparr>,
       expirationTtl = None\<rparr>)"

text \<open>The scenario of the spec: notes A, B and C created at 100, 200 and 300.\<close>

definition scenario_env :: Env where
  "scenario_env =
     \<lparr>NOTES_KV =
        [stored \<lparr>id' = ''A'', title = ''first'', created = 100, updated = 150,
                 content = ''a'', htmlContent = ''a''\<rparr>,
         stored \<lparr>id' = ''B'', title = ''second'', created = 200, updated = 200,
                 content = ''b'', htmlContent = ''b''\<rparr>,
         stored \<lparr>id' = ''C'', title = ''third'', created = 300, updated = 300,
                 content = ''c'', htmlContent = ''c''\<rparr>],
      ADMIN_PASSWORD = ''secret''\<rparr>"

text \<open>A store with one note whose \<open>created\<close> is 0.\<close>

definition epoch_env :: Env where
  "epoch_env =
     \<lparr>NOTES_KV =
        [stored \<lparr>id' = ''Z'', title = ''zero'', created = 0, updated = 0,
                 content = ''z'', htmlContent = ''z''\<rparr>],
      ADMIN_PASSWORD = ''secret''\<rparr>"

text \<open>A digest to run the model on: 32 bytes, each the low byte of the input's length.\<close>

definition toy_digest :: "byte list \<Rightarrow> byte list" where
  "toy_digest buffer = replicate 32 (of_nat (length buffer))"

text \<open>A request whose only cookie is named \<open>xsession\<close>.\<close>

definition xsession_request :: Request where
  "xsession_request = \<lparr>headers = [''Cookie'' \<mapsto> ''xsession=evil'']\<rparr>"

section \<open>Properties of the key-value namespace\<close>

lemma kv_get_put:
  "kv_get (kv_put kv k v m ttl) k' = (if k' = k then Some v else kv_get kv k')"
  by (simp add: kv_get_def kv_put_def update_conv')

lemma kv_get_delete:
  "kv_get (kv_delete kv k) k' = (if k' = k then None else kv_get kv k')"
  by (simp add: kv_get_def kv_delete_def delete_conv')

section \<open>Properties of the session manager\<close>

subsection \<open>Comparison\<close>

lemma xor_zero_iff: "(a::'a::len word) XOR b = 0 \<longleftrightarrow> a = b"
  by (metis xor.assoc xor_self_eq xor.left_neutral)

lemma ucast_byte_zero_iff: "(ucast (z::byte) :: 32 word) = 0 \<longleftrightarrow> z = 0"
proof
  assume "(ucast z :: 32 word) = 0"
  then have "unat (ucast z :: 32 word) = 0" by simp
  moreover have "unat z < 2 ^ 32"
    using unsigned_less [of z, where ?'a = nat] by simp
  then have "unat (ucast z :: 32 word) = unat z"
    by (simp add: unsigned_ucast_eq take_bit_nat_eq_self)
  ultimately show "z = 0" by (simp add: unat_eq_0)
qed simp

lemma xor_bytes_zero_iff:
  "(ucast (x::byte) XOR (ucast (y::byte) :: 32 word)) = 0 \<longleftrightarrow> x = y"
proof -
  have "(ucast x XOR (ucast y :: 32 word)) = ucast (x XOR y)"
    by (simp add: unsigned_xor_eq)
  then show ?thesis
    by (simp add: ucast_byte_zero_iff xor_zero_iff)
qed

lemma unat_of_char: "unat (of_char c :: byte) = of_char c"
proof -
  have "(of_char c :: byte) = of_nat (of_char c)" by (simp add: of_nat_of_char)
  moreover have "(of_char c :: nat) < 256" by simp
  ultimately show ?thesis by (simp add: unat_of_nat)
qed

lemma of_char_byte_inj: "(of_char c :: byte) = of_char d \<longleftrightarrow> c = d"
  by (metis unat_of_char of_char_eq_iff)

lemma encode_inj: "encode a = encode b \<longleftrightarrow> a = b"
  unfolding encode_def by (simp add: inj_def of_char_byte_inj)

lemma length_encode: "length (encode s) = length s"
  by (simp add: encode_def)

lemma all_from_split:
  "i < n \<Longrightarrow>
   (\<forall>j. i \<le> j \<and> j < n \<longrightarrow> P j) \<longleftrightarrow> P i \<and> (\<forall>j. Suc i \<le> j \<and> j < n \<longrightarrow> P j)"
proof (intro iffI conjI allI impI)
  fix j
  assume "i < n" and h: "P i \<and> (\<forall>j. Suc i \<le> j \<and> j < n \<longrightarrow> P j)"
    and j: "i \<le> j \<and> j < n"
  show "P j"
  proof (cases "j = i")
    case True
    with h show ?thesis by simp
  next
    case False
    with j have "Suc i \<le> j" by simp
    with h j show ?thesis by blast
  qed
qed auto

text \<open>
  The accumulator ends at 0 exactly when it started at 0 and the buffers agree at every
  index the loop still visits.
\<close>

lemma xor_loop_zero:
  "xor_loop a b i r = 0 \<longleftrightarrow>
     r = 0 \<and> (\<forall>j. i \<le> j \<and> j < length a \<longrightarrow> byte_at a j = byte_at b j)"
proof (induction a b i r rule: xor_loop.induct)
  case (1 a b i r)
  show ?case
  proof (cases "i < length a")
    case True
    have step: "xor_loop a b i r = xor_loop a b (i + 1) (r OR (byte_at a i XOR byte_at b i))"
      using True by (subst xor_loop.simps) simp
    have "xor_loop a b i r = 0 \<longleftrightarrow>
        (r OR (byte_at a i XOR byte_at b i)) = 0 \<and>
        (\<forall>j. Suc i \<le> j \<and> j < length a \<longrightarrow> byte_at a j = byte_at b j)"
      using 1 [OF True] by (simp add: step)
    also have "\<dots> \<longleftrightarrow> r = 0 \<and> byte_at a i = byte_at b i \<and>
        (\<forall>j. Suc i \<le> j \<and> j < length a \<longrightarrow> byte_at a j = byte_at b j)"
      by (simp add: or_eq_0_iff xor_zero_iff)
    also have "\<dots> \<longleftrightarrow>
        r = 0 \<and> (\<forall>j. i \<le> j \<and> j < length a \<longrightarrow> byte_at a j = byte_at b j)"
      using all_from_split [OF True, of "\<lambda>j. byte_at a j = byte_at b j"] by blast
    finally show ?thesis .
  next
    case False
    have "xor_loop a b i r = r"
      using False by (subst xor_loop.simps) simp
    with False show ?thesis by auto
  qed
qed

lemma byte_at_eq_iff:
  "j < length a \<Longrightarrow> j < length b \<Longrightarrow> byte_at a j = byte_at b j \<longleftrightarrow> a ! j = b ! j"
  using xor_bytes_zero_iff [of "a ! j" "b ! j"]
  by (simp add: byte_at_def xor_zero_iff)

lemma xor_loop_equal: "length a = length b \<Longrightarrow> xor_loop a b 0 0 = 0 \<longleftrightarrow> a = b"
  by (simp add: xor_loop_zero list_eq_iff_nth_eq byte_at_eq_iff)

text \<open>
  C6: \<open>secureCompare\<close> decides equality, whatever the digest function is. It is false
  whenever the byte lengths of the two inputs differ; for inputs of equal byte length it is
  true exactly when the two byte sequences are equal; so it is true exactly when the two
  strings are equal.
\<close>

theorem secureCompare_decides_equality:
  "(length (encode a) \<noteq> length (encode b) \<longrightarrow> \<not> secureCompare digest a b) \<and>
   (length (encode a) = length (encode b) \<longrightarrow>
      secureCompare digest a b = (encode a = encode b)) \<and>
   secureCompare digest a b = (a = b)"
proof -
  have 1: "length (encode a) \<noteq> length (encode b) \<Longrightarrow> \<not> secureCompare digest a b"
    by (simp add: secureCompare_def)
  have 2: "length (encode a) = length (encode b) \<Longrightarrow>
      secureCompare digest a b = (encode a = encode b)"
    by (simp add: secureCompare_def xor_loop_equal)
  have 3: "secureCompare digest a b = (a = b)"
  proof (cases "length (encode a) = length (encode b)")
    case True
    with 2 show ?thesis by (simp add: encode_inj)
  next
    case False
    with 1 show ?thesis by auto
  qed
  from 1 2 3 show ?thesis by blast
qed

theorem secureCompare_decides_equality_witness:
  "length (encode ''abc'') \<noteq> length (encode ''abcx'') \<and>
   \<not> secureCompare toy_digest ''abc'' ''abcx'' \<and>
   length (encode ''abc'') = length (encode ''abd'') \<and>
   \<not> secureCompare toy_digest ''abc'' ''abd'' \<and>
   secureCompare toy_digest ''abc'' ''abc''"
proof -
  have l1: "length (encode ''abc'') \<noteq> length (encode ''abcx'')"
    by (simp add: length_encode)
  have l2: "length (encode ''abc'') = length (encode ''abd'')"
    by (simp add: length_encode)
  have ne: "encode ''abc'' \<noteq> encode ''abd''"
    by (simp add: encode_inj)
  have 1: "\<not> secureCompare toy_digest ''abc'' ''abcx''"
    using secureCompare_decides_equality [of "''abc''" "''abcx''" toy_digest] l1 by blast
  have 2: "\<not> secureCompare toy_digest ''abc'' ''abd''"
    using secureCompare_decides_equality [of "''abc''" "''abd''" toy_digest] l2 ne by blast
  have 3: "secureCompare toy_digest ''abc'' ''abc''"
    using secureCompare_decides_equality [of "''abc''" "''abc''" toy_digest] by blast
  from l1 l2 1 2 3 show ?thesis by blast
qed

subsection \<open>Sessions\<close>

lemma randomUUID_nonempty: "randomUUID rnd \<noteq> []"
  unfolding randomUUID_def Let_def
  by (simp only: append_is_Nil_conv list.distinct simp_thms)

text \<open>
  C7: in every state of the store, the token that \<open>createSession\<close> returns validates in the
  state that \<open>createSession\<close> leaves; after \<open>deleteSession\<close> on a token, in that state or in
  any other, the token no longer validates.
\<close>

theorem session_roundtrip:
  "validateSession (snd (createSession env rnd)) (fst (createSession env rnd)) \<and>
   \<not> validateSession
       (deleteSession (snd (createSession env rnd)) (fst (createSession env rnd)))
       (fst (createSession env rnd)) \<and>
   \<not> validateSession (deleteSession env token) token"
proof -
  define tok where "tok = randomUUID rnd"
  have tok: "tok \<noteq> []" by (simp add: tok_def randomUUID_nonempty)
  have cs: "createSession env rnd =
      (tok, env\<lparr>NOTES_KV := kv_put (NOTES_KV env) (SESSION_PREFIX @ tok) (Text ''valid'') None
              (Some SESSION_TTL)\<rparr>)"
    by (simp add: createSession_def tok_def Let_def)
  have 1: "validateSession (snd (createSession env rnd)) (fst (createSession env rnd))"
    using tok by (simp add: cs validateSession_def kv_get_put)
  have 2: "\<not> validateSession (deleteSession env' t) t" for env' t
    by (simp add: validateSession_def deleteSession_def kv_get_delete)
  from 1 2 show ?thesis by blast
qed

subsection \<open>The session cookie\<close>

text \<open>
  C9: the pattern is searched anywhere in the header. The header \<open>xsession=evil\<close> has one
  cookie, named \<open>xsession\<close>, and none named \<open>session\<close>; the name ends in \<open>session\<close>, and
  \<open>getSessionFromCookie\<close> returns the value of that cookie, not null.
\<close>

theorem getSessionFromCookie_unanchored:
  "headers xsession_request ''Cookie'' = Some ''xsession=evil'' \<and>
   cookie_pairs ''xsession=evil'' = [(''xsession'', ''evil'')] \<and>
   ''session'' \<notin> set (map fst (cookie_pairs ''xsession=evil'')) \<and>
   suffix ''session'' ''xsession'' \<and>
   getSessionFromCookie xsession_request = Some ''evil''"
  by (simp add: xsession_request_def cookie_pairs_def getSessionFromCookie_def Let_def
      suffix_def)

section \<open>Properties of the sanitizer\<close>

subsection \<open>The reader produces well-formed tokens\<close>

lemma lower_cases: "lower c = c \<or> lower c \<in> set ''abcdefghijklmnopqrstuvwxyz''"
proof (cases "map_of (zip ''ABCDEFGHIJKLMNOPQRSTUVWXYZ'' ''abcdefghijklmnopqrstuvwxyz'') c")
  case None
  then show ?thesis by (simp only: lower_def option.case simp_thms)
next
  case (Some d)
  then have "(c, d) \<in> set (zip ''ABCDEFGHIJKLMNOPQRSTUVWXYZ'' ''abcdefghijklmnopqrstuvwxyz'')"
    by (rule map_of_SomeD)
  then have "d \<in> set ''abcdefghijklmnopqrstuvwxyz''" by (rule set_zip_rightD)
  with Some show ?thesis by (simp only: lower_def option.case simp_thms)
qed

lemma small_letters:
  "c \<in> set ''abcdefghijklmnopqrstuvwxyz'' \<Longrightarrow> tag_char c \<and> attr_char c \<and> is_letter c"
  by (auto simp: tag_char_def attr_char_def is_letter_def is_space_def)

lemma lower_tag_char: "tag_char c \<Longrightarrow> tag_char (lower c)"
  using lower_cases [of c] small_letters [of "lower c"] by auto

lemma lower_attr_char: "attr_char c \<Longrightarrow> attr_char (lower c)"
  using lower_cases [of c] small_letters [of "lower c"] by auto

lemma lower_is_letter: "is_letter c \<Longrightarrow> is_letter (lower c)"
  using lower_cases [of c] small_letters [of "lower c"] by auto

lemma list_all_takeWhile: "list_all P (takeWhile P xs)"
  by (induction xs) auto

lemma attributes_wf:
  "attributes s = Some (as, r) \<Longrightarrow>
   list_all (\<lambda>av. fst av \<noteq> [] \<and> list_all attr_char (fst av)) as"
proof (induction s arbitrary: as r rule: length_induct)
  case (1 s)
  note IH = "1.IH" [rule_format]
  show ?case
  proof (cases s)
    case Nil
    with "1.prems" show ?thesis by (simp add: attributes.simps)
  next
    case (Cons c cs)
    show ?thesis
    proof (cases "c = CHR ''>''")
      case True
      with Cons "1.prems" show ?thesis by (simp add: attributes_gt)
    next
      case gt: False
      show ?thesis
      proof (cases "attr_char c")
        case False
        with gt Cons "1.prems" have "attributes cs = Some (as, r)"
          by (simp add: attributes_skip)
        from IH [OF _ this] Cons show ?thesis by simp
      next
        case True
        define d where "d = dropWhile attr_char (c # cs)"
        define a where "a = map lower (takeWhile attr_char (c # cs))"
        have d: "length d \<le> length cs" using True by (simp add: d_def length_dropWhile_le)
        have "list_all attr_char (takeWhile attr_char (c # cs))" by (rule list_all_takeWhile)
        then have a: "a \<noteq> [] \<and> list_all attr_char a"
          using True by (simp add: a_def list_all_iff lower_attr_char)
        show ?thesis
        proof (cases "d = [] \<or> hd d \<noteq> CHR ''=''")
          case bare: True
          from attributes_bare [OF gt True d_def [symmetric] bare a_def] "1.prems" Cons
          obtain as' where r: "attributes d = Some (as', r)" and as: "as = (a, []) # as'"
            by (auto split: option.splits)
          from IH [OF _ r] d Cons a as show ?thesis by simp
        next
          case False
          then obtain r0 where r0: "d = CHR ''='' # r0" by (cases d) auto
          from attributes_value [OF gt True r0 [unfolded d_def] a_def] "1.prems" Cons
          obtain v r' as' where v: "attr_value r0 = Some (v, r')"
            and r: "attributes r' = Some (as', r)" and as: "as = (a, v) # as'"
            by (auto split: option.splits)
          from attr_value_length [OF v] r0 d have "length r' < length s"
            using Cons by simp
          from IH [OF this r] a as show ?thesis by simp
        qed
      qed
    qed
  qed
qed

lemma tag_wf: "tag s = Some (t, r) \<Longrightarrow> wf_token t"
proof (cases "s \<noteq> [] \<and> hd s = CHR ''/''")
  case True
  assume "tag s = Some (t, r)"
  with True have t: "t = EndTag (map lower (takeWhile tag_char (tl s)))"
    and n: "map lower (takeWhile tag_char (tl s)) \<noteq> []"
      "is_letter (hd (map lower (takeWhile tag_char (tl s))))"
    by (auto simp: tag_def Let_def split: if_splits)
  have "list_all tag_char (takeWhile tag_char (tl s))" by (rule list_all_takeWhile)
  then have "list_all tag_char (map lower (takeWhile tag_char (tl s)))"
    by (simp add: list_all_iff lower_tag_char)
  with t n show ?thesis by simp
next
  case False
  assume "tag s = Some (t, r)"
  with False obtain as where as: "attributes (dropWhile tag_char s) = Some (as, r)"
    and t: "t = StartTag (map lower (takeWhile tag_char s)) as"
    and n: "map lower (takeWhile tag_char s) \<noteq> []"
      "is_letter (hd (map lower (takeWhile tag_char s)))"
    by (auto simp: tag_def Let_def split: if_splits option.splits)
  have "list_all tag_char (takeWhile tag_char s)" by (rule list_all_takeWhile)
  then have "list_all tag_char (map lower (takeWhile tag_char s))"
    by (simp add: list_all_iff lower_tag_char)
  with t n attributes_wf [OF as] show ?thesis by simp
qed

lemma tokenize_wf: "list_all wf_token (tokenize s)"
proof (induction s rule: tokenize.induct)
  case 1
  then show ?case by (simp add: tokenize.simps)
next
  case (2 c cs)
  show ?case
  proof (cases "c = CHR ''<''")
    case False
    with "2.IH"(3) show ?thesis by (subst tokenize.simps) simp
  next
    case True
    show ?thesis
    proof (cases "tag cs")
      case None
      with True "2.IH"(1) show ?thesis by (subst tokenize.simps) simp
    next
      case (Some p)
      obtain t rest where p: "p = (t, rest)" by (cases p)
      with Some have "tag cs = Some (t, rest)" by simp
      with True "2.IH"(2) [OF True this refl] tag_wf [OF this] show ?thesis
        by (subst tokenize.simps) simp
    qed
  qed
qed

subsection \<open>The filter keeps permitted tokens only\<close>

lemma keep_attribute_allowed:
  "keep_attribute opts n av \<Longrightarrow>
   list_ex (\<lambda>e. fst e = n \<and> fst av \<in> set (snd e)) (allowedAttributes opts)"
  by (force simp: keep_attribute_def list_ex_iff split: option.splits dest: map_of_SomeD)

lemma sanitize_tokens_ok:
  "list_all wf_token ts \<Longrightarrow>
   list_all (\<lambda>t. wf_token t \<and> ok_token opts t) (sanitize_tokens opts b ts)"
proof (induction opts b ts rule: sanitize_tokens.induct)
  case (4 opts n as ts)
  have "list_all
      (\<lambda>av. list_ex (\<lambda>e. fst e = n \<and> fst av \<in> set (snd e)) (allowedAttributes opts))
      (filter (keep_attribute opts n) as)"
    by (simp add: list_all_iff keep_attribute_allowed)
  moreover from "4.prems" have
    "list_all (\<lambda>av. fst av \<noteq> [] \<and> list_all attr_char (fst av)) (filter (keep_attribute opts n) as)"
    by (auto simp: list_all_iff)
  ultimately show ?case using 4 by simp
qed simp_all

lemma takeWhile_all: "list_all P xs \<Longrightarrow> (r = [] \<or> \<not> P (hd r)) \<Longrightarrow> takeWhile P (xs @ r) = xs"
  by (induction xs) (auto simp: takeWhile_eq_Nil_iff)

lemma dropWhile_all: "list_all P xs \<Longrightarrow> (r = [] \<or> \<not> P (hd r)) \<Longrightarrow> dropWhile P (xs @ r) = r"
  by (induction xs) (auto simp: dropWhile_eq_self_iff)

lemma escape_text_lt: "CHR ''<'' \<notin> set (escape_text s)"
  by (induction s) (auto simp: escape_text_def)

lemma escape_value_quote: "CHR 0x22 \<notin> set (escape_value s)"
  by (induction s) (auto simp: escape_value_def)

lemma tokenize_Nil: "tokenize [] = []"
  by (simp add: tokenize.simps)

lemma tokenize_text:
  "c \<noteq> CHR ''<'' \<Longrightarrow>
   tokenize (c # cs) =
     Chars (takeWhile (\<lambda>x. x \<noteq> CHR ''<'') (c # cs)) #
     tokenize (dropWhile (\<lambda>x. x \<noteq> CHR ''<'') (c # cs))"
  by (subst tokenize.simps) simp

lemma tokenize_tag:
  "tag cs = Some (t, rest) \<Longrightarrow> tokenize (CHR ''<'' # cs) = t # tokenize rest"
  by (subst tokenize.simps) simp

lemma tokenize_no_tag:
  "tag cs = None \<Longrightarrow> tokenize (CHR ''<'' # cs) = Chars ''<'' # tokenize cs"
  by (subst tokenize.simps) simp

lemma tags_dropWhile:
  "filter is_tag (tokenize (dropWhile (\<lambda>x. x \<noteq> CHR ''<'') r)) = filter is_tag (tokenize r)"
proof (cases r)
  case Nil
  then show ?thesis by simp
next
  case (Cons c cs)
  show ?thesis
  proof (cases "c = CHR ''<''")
    case True
    with Cons show ?thesis by simp
  next
    case False
    with Cons show ?thesis by (simp add: tokenize_text)
  qed
qed

lemma tags_text_prefix:
  assumes "CHR ''<'' \<notin> set x"
  shows "filter is_tag (tokenize (x @ r)) = filter is_tag (tokenize r)"
proof (cases x)
  case Nil
  then show ?thesis by simp
next
  case (Cons c cs)
  with assms have c: "c \<noteq> CHR ''<''" and all: "list_all (\<lambda>x. x \<noteq> CHR ''<'') (c # cs)"
    by (auto simp: list_all_iff)
  have "dropWhile (\<lambda>x. x \<noteq> CHR ''<'') ((c # cs) @ r) = dropWhile (\<lambda>x. x \<noteq> CHR ''<'') r"
    using all by (induction cs) (auto simp: list_all_iff)
  then have "filter is_tag (tokenize ((c # cs) @ r)) =
      filter is_tag (tokenize (dropWhile (\<lambda>x. x \<noteq> CHR ''<'') r))"
    using c by (simp add: tokenize_text)
  with Cons show ?thesis by (simp add: tags_dropWhile)
qed

subsection \<open>Reading back what was written\<close>

lemma render_StartTag:
  "render_token (StartTag n as) = CHR ''<'' # n @ concat (map render_attribute as) @ ''>''"
  by simp

lemma attr_value_quoted:
  assumes "CHR 0x22 \<notin> set v"
  shows "attr_value (CHR 0x22 # v @ CHR 0x22 # m) = Some (v, m)"
proof -
  from assms have v: "list_all (\<lambda>x. x \<noteq> CHR 0x22) v" by (auto simp: list_all_iff)
  have m: "CHR 0x22 # m = [] \<or> \<not> (\<lambda>x. x \<noteq> CHR 0x22) (hd (CHR 0x22 # m))" by simp
  have "takeWhile (\<lambda>x. x \<noteq> CHR 0x22) (v @ CHR 0x22 # m) = v"
    by (rule takeWhile_all [OF v m])
  moreover have "dropWhile (\<lambda>x. x \<noteq> CHR 0x22) (v @ CHR 0x22 # m) = CHR 0x22 # m"
    by (rule dropWhile_all [OF v m])
  ultimately show ?thesis by (simp add: attr_value_def)
qed

lemma attributes_name:
  assumes a: "a \<noteq> []" "list_all attr_char a"
  shows "attributes (a @ CHR ''='' # r) =
     (case attr_value r of
        None \<Rightarrow> None
      | Some (v, r') \<Rightarrow>
          (case attributes r' of
             None \<Rightarrow> None
           | Some (as, rest) \<Rightarrow> Some ((map lower a, v) # as, rest)))"
proof -
  from a obtain c cs where c: "a = c # cs" by (cases a) auto
  with a have ac: "attr_char c" by simp
  then have gt: "c \<noteq> CHR ''>''" by (auto simp: attr_char_def)
  have eq: "CHR ''='' # r = [] \<or> \<not> attr_char (hd (CHR ''='' # r))"
    by (simp add: attr_char_def)
  have t: "takeWhile attr_char (a @ CHR ''='' # r) = a" by (rule takeWhile_all [OF a(2) eq])
  have d: "dropWhile attr_char (a @ CHR ''='' # r) = CHR ''='' # r"
    by (rule dropWhile_all [OF a(2) eq])
  have t': "map lower a = map lower (takeWhile attr_char (c # cs @ CHR ''='' # r))"
    using t by (simp only: c append_Cons)
  have d': "dropWhile attr_char (c # cs @ CHR ''='' # r) = CHR ''='' # r"
    using d by (simp only: c append_Cons)
  have "attributes (c # cs @ CHR ''='' # r) =
     (case attr_value r of
        None \<Rightarrow> None
      | Some (v, r') \<Rightarrow>
          (case attributes r' of
             None \<Rightarrow> None
           | Some (as, rest) \<Rightarrow> Some ((map lower a, v) # as, rest)))"
    by (rule attributes_value [OF gt ac d' t'])
  then show ?thesis by (simp only: c append_Cons)
qed

lemma attributes_rendered:
  assumes "list_all (\<lambda>av. fst av \<noteq> [] \<and> list_all attr_char (fst av)) as"
  shows "attributes (concat (map render_attribute as) @ CHR ''>'' # r) =
     Some (map (\<lambda>av. (map lower (fst av), escape_value (snd av))) as, r)"
  using assms
proof (induction as)
  case Nil
  then show ?case by (simp add: attributes_gt)
next
  case (Cons av as)
  define m where "m = concat (map render_attribute as) @ CHR ''>'' # r"
  define q where "q = CHR 0x22 # escape_value (snd av) @ CHR 0x22 # m"
  from Cons.prems have a: "fst av \<noteq> []" "list_all attr_char (fst av)"
    and as: "list_all (\<lambda>av. fst av \<noteq> [] \<and> list_all attr_char (fst av)) as"
    by simp_all
  have sp: "CHR '' '' \<noteq> CHR ''>''" "\<not> attr_char (CHR '' '')"
    by (simp_all add: attr_char_def is_space_def)
  have 0: "concat (map render_attribute (av # as)) @ CHR ''>'' # r =
      CHR '' '' # (fst av @ CHR ''='' # q)"
    by (simp add: render_attribute_def m_def q_def)
  have 1: "attributes (CHR '' '' # (fst av @ CHR ''='' # q)) = attributes (fst av @ CHR ''='' # q)"
    by (rule attributes_skip [OF sp])
  have 2: "attributes (fst av @ CHR ''='' # q) =
     (case attr_value q of
        None \<Rightarrow> None
      | Some (v, r') \<Rightarrow>
          (case attributes r' of
             None \<Rightarrow> None
           | Some (as, rest) \<Rightarrow> Some ((map lower (fst av), v) # as, rest)))"
    by (rule attributes_name [OF a])
  have 3: "attr_value q = Some (escape_value (snd av), m)"
    unfolding q_def by (rule attr_value_quoted [OF escape_value_quote])
  have 4: "attributes m = Some (map (\<lambda>av. (map lower (fst av), escape_value (snd av))) as, r)"
    unfolding m_def by (rule Cons.IH [OF as])
  have "attributes (concat (map render_attribute (av # as)) @ CHR ''>'' # r) =
      attributes (fst av @ CHR ''='' # q)"
    by (simp only: 0 1)
  also have "\<dots> = Some ((map lower (fst av), escape_value (snd av)) #
      map (\<lambda>av. (map lower (fst av), escape_value (snd av))) as, r)"
    by (simp only: 2 3 4 option.case prod.case)
  finally show ?case by simp
qed

lemma letter_not_slash: "is_letter c \<Longrightarrow> c \<noteq> CHR ''/''"
  by (auto simp: is_letter_def)

lemma tag_break: "\<not> tag_char (CHR '' '')" "\<not> tag_char (CHR ''>'')"
  by (simp_all add: tag_char_def is_space_def)

lemma tokenize_StartTag:
  assumes "wf_token (StartTag n as)"
  shows "tokenize (render_token (StartTag n as) @ r) = reread (StartTag n as) # tokenize r"
proof -
  define m where "m = concat (map render_attribute as) @ CHR ''>'' # r"
  from assms have n: "n \<noteq> []" "is_letter (hd n)" "list_all tag_char n"
    and as: "list_all (\<lambda>av. fst av \<noteq> [] \<and> list_all attr_char (fst av)) as"
    by simp_all
  have m: "m = [] \<or> \<not> tag_char (hd m)"
  proof (cases as)
    case Nil
    then show ?thesis by (simp add: m_def tag_break)
  next
    case (Cons av as')
    then show ?thesis by (simp add: m_def render_attribute_def tag_break)
  qed
  have t: "takeWhile tag_char (n @ m) = n" using n(3) m by (rule takeWhile_all)
  have d: "dropWhile tag_char (n @ m) = m" using n(3) m by (rule dropWhile_all)
  from n have hd: "hd (n @ m) \<noteq> CHR ''/''" by (simp add: letter_not_slash)
  from n have ln: "map lower n \<noteq> []" "is_letter (hd (map lower n))"
    by (simp_all add: hd_map lower_is_letter)
  have "tag (n @ m) = Some (reread (StartTag n as), r)"
    using hd ln attributes_rendered [OF as, of r]
    by (simp add: tag_def t d Let_def m_def [symmetric])
  then have "tokenize (CHR ''<'' # n @ m) = reread (StartTag n as) # tokenize r"
    by (rule tokenize_tag)
  then show ?thesis by (simp add: render_StartTag m_def)
qed

lemma tokenize_EndTag:
  assumes "wf_token (EndTag n)"
  shows "tokenize (render_token (EndTag n) @ r) = reread (EndTag n) # tokenize r"
proof -
  from assms have n: "n \<noteq> []" "is_letter (hd n)" "list_all tag_char n" by simp_all
  have m: "CHR ''>'' # r = [] \<or> \<not> tag_char (hd (CHR ''>'' # r))" by (simp add: tag_break)
  have t: "takeWhile tag_char (n @ CHR ''>'' # r) = n" using n(3) m by (rule takeWhile_all)
  have d: "dropWhile tag_char (n @ CHR ''>'' # r) = CHR ''>'' # r"
    using n(3) m by (rule dropWhile_all)
  from n have ln: "map lower n \<noteq> []" "is_letter (hd (map lower n))"
    by (simp_all add: hd_map lower_is_letter)
  have "tag (CHR ''/'' # n @ CHR ''>'' # r) = Some (reread (EndTag n), r)"
    using ln by (simp add: tag_def t d Let_def)
  then have "tokenize (CHR ''<'' # CHR ''/'' # n @ CHR ''>'' # r) = reread (EndTag n) # tokenize r"
    by (rule tokenize_tag)
  then show ?thesis by simp
qed

text \<open>The tags read back from the text of well-formed tokens are the tags written.\<close>

lemma serialize_Cons: "serialize (t # ts) = render_token t @ serialize ts"
  by (simp add: serialize_def)

lemma tags_serialize:
  "list_all wf_token ts \<Longrightarrow>
   filter is_tag (tokenize (serialize ts)) = map reread (filter is_tag ts)"
proof (induction ts)
  case Nil
  then show ?case by (simp add: serialize_def tokenize_Nil)
next
  case (Cons t ts)
  then have IH: "filter is_tag (tokenize (serialize ts)) = map reread (filter is_tag ts)"
    and wf: "wf_token t" by simp_all
  show ?case
  proof (cases t)
    case (Chars x)
    have "filter is_tag (tokenize (escape_text x @ serialize ts)) =
        filter is_tag (tokenize (serialize ts))"
      by (rule tags_text_prefix [OF escape_text_lt])
    with IH Chars show ?thesis by (simp add: serialize_Cons)
  next
    case (StartTag n as)
    from wf have "tokenize (render_token (StartTag n as) @ serialize ts) =
        reread (StartTag n as) # tokenize (serialize ts)"
      unfolding StartTag by (rule tokenize_StartTag)
    with IH show ?thesis
      unfolding StartTag serialize_Cons by simp
  next
    case (EndTag n)
    from wf have "tokenize (render_token (EndTag n) @ serialize ts) =
        reread (EndTag n) # tokenize (serialize ts)"
      unfolding EndTag by (rule tokenize_EndTag)
    with IH show ?thesis
      unfolding EndTag serialize_Cons by simp
  qed
qed

subsection \<open>The output has no script tag and no event-handler attribute\<close>

lemma safe_reread:
  assumes "safe_options opts" and "ok_token opts t"
  shows "\<not> script_token (reread t) \<and> \<not> event_token (reread t)"
proof (cases t)
  case (Chars s)
  then show ?thesis by simp
next
  case (EndTag n)
  with assms show ?thesis by (auto simp: safe_options_def list_all_iff)
next
  case (StartTag n as)
  with assms have n: "map lower n \<noteq> ''script''"
    by (auto simp: safe_options_def list_all_iff)
  have "\<not> prefix ''on'' (map lower (fst av))" if "av \<in> set as" for av
  proof -
    from that assms(2) StartTag obtain e where
      "e \<in> set (allowedAttributes opts)" "fst av \<in> set (snd e)"
      by (auto simp: list_all_iff list_ex_iff)
    with assms(1) show ?thesis by (auto simp: safe_options_def list_all_iff)
  qed
  with n StartTag show ?thesis by (auto simp: list_ex_iff)
qed

lemma tag_tokens: "script_token t \<or> event_token t \<Longrightarrow> is_tag t"
  by (cases t) auto

text \<open>
  Under options that allow no script tag and no attribute whose name starts with \<open>on\<close>, the
  sanitizer's output has no script tag and no such attribute, whatever the input.
\<close>

lemma sanitizeHtml_safe:
  assumes "safe_options opts"
  shows "\<not> has_script_tag (sanitizeHtml dirty opts) \<and>
         \<not> has_event_attribute (sanitizeHtml dirty opts)"
proof -
  define ts where "ts = sanitize_tokens opts False (tokenize dirty)"
  have ok: "list_all (\<lambda>t. wf_token t \<and> ok_token opts t) ts"
    unfolding ts_def by (rule sanitize_tokens_ok [OF tokenize_wf])
  then have wf: "list_all wf_token ts" by (simp add: list_all_iff)
  have "\<not> script_token t \<and> \<not> event_token t" if t: "t \<in> set (tokenize (serialize ts))" for t
  proof (cases "is_tag t")
    case False
    with tag_tokens [of t] show ?thesis by blast
  next
    case True
    with t have "t \<in> set (filter is_tag (tokenize (serialize ts)))" by simp
    then have "t \<in> set (map reread (filter is_tag ts))"
      by (simp only: tags_serialize [OF wf])
    then obtain t' where "t' \<in> set ts" "t = reread t'" by auto
    with ok safe_reread [OF assms, of t'] show ?thesis by (simp add: list_all_iff)
  qed
  then show ?thesis
    by (simp add: has_script_tag_def has_event_attribute_def sanitizeHtml_def ts_def
        list_ex_iff)
qed

section \<open>Properties of the note store\<close>

subsection \<open>Identifiers\<close>

text \<open>
  SECURITY_REPORT.md counts 64 characters in the alphabet of the identifiers. No alphabet
  of 64 different characters is alphanumeric: there are 62 letters and digits.
\<close>

lemma no_alphanumeric_alphabet_of_64:
  assumes "distinct cs" and "length cs = 64"
  shows "\<exists>c \<in> set cs. \<not> alphanumeric c"
proof (rule ccontr)
  define A where "A = ''ABCDEFGHIJKLMNOPQRSTUVWXYZabcdefghijklmnopqrstuvwxyz0123456789''"
  have A: "alphanumeric c \<longleftrightarrow> c \<in> set A" for c
    by (simp only: alphanumeric_def A_def)
  assume "\<not> (\<exists>c \<in> set cs. \<not> alphanumeric c)"
  then have "set cs \<subseteq> set A" by (auto simp only: A)
  then have "card (set cs) \<le> card (set A)" by (simp add: card_mono)
  also have "\<dots> \<le> length A" by (rule card_length)
  also have "\<dots> = 62" by (simp add: A_def)
  finally have "card (set cs) \<le> 62" .
  moreover from assms have "card (set cs) = 64" by (simp add: distinct_card)
  ultimately show False by simp
qed

subsection \<open>The sanitizer's options\<close>

text \<open>
  The options add four tags to the defaults, none of them \<open>script\<close>, and set the
  attributes of five tags, none of them an event handler: when the defaults permit no
  script tag and no event-handler attribute, neither do the options.
\<close>

lemma SANITIZE_OPTIONS_tags:
  "set (allowedTags (SANITIZE_OPTIONS lib)) =
     set (allowedTags (sanitizeHtml_defaults lib)) \<union> {''img'', ''h1'', ''h2'', ''h3''}"
  by (auto simp: SANITIZE_OPTIONS_def)

lemma SANITIZE_OPTIONS_no_script:
  "''script'' \<in> set (allowedTags (SANITIZE_OPTIONS lib)) \<longleftrightarrow>
   ''script'' \<in> set (allowedTags (sanitizeHtml_defaults lib))"
  by (simp add: SANITIZE_OPTIONS_tags)

lemma set_update_subset: "set (AList.update k v al) \<subseteq> insert (k, v) (set al)"
  by (induction al) auto

lemma safe_options_SANITIZE:
  assumes "safe_options (sanitizeHtml_defaults lib)"
  shows "safe_options (SANITIZE_OPTIONS lib)"
proof -
  define ok where "ok = (\<lambda>e :: string \<times> string list.
    list_all (\<lambda>a. \<not> prefix ''on'' (map lower a)) (snd e))"
  have upd: "list_all ok (AList.update k v al)" if "ok (k, v)" "list_all ok al" for k v al
    using that set_update_subset [of k v al] by (auto simp: list_all_iff)
  have low: "map lower ''img'' \<noteq> ''script''" "map lower ''h1'' \<noteq> ''script''"
    "map lower ''h2'' \<noteq> ''script''" "map lower ''h3'' \<noteq> ''script''"
    by simp_all
  from assms have d: "list_all ok (allowedAttributes (sanitizeHtml_defaults lib))"
    and t: "list_all (\<lambda>n. map lower n \<noteq> ''script'') (allowedTags (sanitizeHtml_defaults lib))"
    by (simp_all add: safe_options_def ok_def)
  have k: "ok (''img'', [''src'', ''alt'', ''title''])"
    "ok (''a'', [''href'', ''title'', ''target'', ''rel''])"
    "ok (''code'', [''class''])" "ok (''pre'', [''class''])" "ok (''span'', [''class''])"
    by (simp_all add: ok_def lower_def)
  have "list_all ok (allowedAttributes (SANITIZE_OPTIONS lib))"
    by (simp add: SANITIZE_OPTIONS_def upd k d)
  with t low show ?thesis
    by (simp add: safe_options_def ok_def [symmetric] SANITIZE_OPTIONS_def)
qed

subsection \<open>Reading after a write\<close>

lemma getNote_put:
  "getNote (env\<lparr>NOTES_KV := kv_put (NOTES_KV env) k v m ttl\<rparr>) j =
     (if ''note:'' @ j = k
      then (case v of JsonNote n \<Rightarrow> Inr (Some n) | Text s \<Rightarrow> Inl NotANote)
      else getNote env j)"
  by (simp add: getNote_def kv_get_json_def kv_get_put)

lemma getNote_delete:
  "getNote (env\<lparr>NOTES_KV := kv_delete (NOTES_KV env) k\<rparr>) j =
     (if ''note:'' @ j = k then Inr None else getNote env j)"
  by (simp add: getNote_def kv_get_json_def kv_get_delete)

text \<open>
  \<open>saveNote\<close> fails only when the read of the existing record fails. Otherwise it returns
  the note it built, a read of the same id gives that note back, and every other id reads
  as before.
\<close>

lemma saveNote_Inl: "getNote env i = Inl e \<Longrightarrow> saveNote lib env now i t c = Inl e"
  by (simp add: saveNote_def)

lemma saveNote_Inr:
  assumes "getNote env i = Inr existing"
  shows "\<exists>n env'. saveNote lib env now i t c = Inr (n, env') \<and>
           getNote env' i = Inr (Some n) \<and>
           (\<forall>j. j \<noteq> i \<longrightarrow> getNote env' j = getNote env j) \<and>
           n = \<lparr>id' = i, title = t,
                created = (case existing of
                             None \<Rightarrow> now
                           | Some ex \<Rightarrow> if created ex \<noteq> 0 then created ex else now),
                updated = now, content = c,
                htmlContent =
                  sanitizeHtml (marked_parse lib MARKED_OPTIONS c) (SANITIZE_OPTIONS lib)\<rparr>"
  using assms by (simp add: saveNote_def Let_def getNote_put)

lemma getNote_scenario:
  "getNote scenario_env ''A'' =
     Inr (Some \<lparr>id' = ''A'', title = ''first'', created = 100, updated = 150,
                content = ''a'', htmlContent = ''a''\<rparr>)"
  "getNote scenario_env ''D'' = Inr None"
  by (simp_all add: getNote_def scenario_env_def stored_def kv_get_json_def kv_get_def)

lemma getNote_epoch:
  "getNote epoch_env ''Z'' =
     Inr (Some \<lparr>id' = ''Z'', title = ''zero'', created = 0, updated = 0,
                content = ''z'', htmlContent = ''z''\<rparr>)"
  by (simp add: getNote_def epoch_env_def stored_def kv_get_json_def kv_get_def)

text \<open>
  C2: after every write that \<open>saveNote\<close> makes, create or update, the note that a read of
  the id returns has as \<open>htmlContent\<close> the sanitizer's output, under \<open>SANITIZE_OPTIONS\<close>,
  on the Markdown rendering of its \<open>content\<close>; and this HTML has no script tag and no
  event-handler attribute, whatever the content was and whatever the renderer made of it.
  The default options, which \<open>SANITIZE_OPTIONS\<close> extends, are those of the sanitizer's
  package: they are taken to permit no script tag and no event-handler attribute.
\<close>

theorem saveNote_html_sanitized:
  assumes "getNote env i = Inr existing"
    and "safe_options (sanitizeHtml_defaults lib)"
  shows "\<exists>n env'. saveNote lib env now i t c = Inr (n, env') \<and>
           getNote env' i = Inr (Some n) \<and> content n = c \<and>
           htmlContent n =
             sanitizeHtml (marked_parse lib MARKED_OPTIONS (content n)) (SANITIZE_OPTIONS lib) \<and>
           \<not> has_script_tag (htmlContent n) \<and> \<not> has_event_attribute (htmlContent n)"
proof -
  from saveNote_Inr [OF assms(1), of lib now t c] obtain n env' where
    s: "saveNote lib env now i t c = Inr (n, env')" and g: "getNote env' i = Inr (Some n)"
    and c: "content n = c"
    and h: "htmlContent n =
      sanitizeHtml (marked_parse lib MARKED_OPTIONS c) (SANITIZE_OPTIONS lib)"
    by force
  have "safe_options (SANITIZE_OPTIONS lib)" using assms(2) by (rule safe_options_SANITIZE)
  then have "\<not> has_script_tag (htmlContent n) \<and> \<not> has_event_attribute (htmlContent n)"
    unfolding h by (rule sanitizeHtml_safe)
  with s g c h show ?thesis
    by (intro exI [of _ n] exI [of _ env']) simp
qed

text \<open>
  The libraries of the examples on the scenario of the spec and on the two payloads: the
  heading stays and the script goes, with its text; the image stays and its \<open>onerror\<close>
  goes. A link loses a \<open>javascript:\<close> URL and its \<open>onclick\<close> and keeps an \<open>https:\<close> URL
  and its \<open>rel\<close>; an attribute that only the defaults list stays, a tag that no list has
  goes and its text stays. Before the sanitizer the rendering has the script tag and the
  event handler.
\<close>

lemma toy_sanitized:
  "sanitizeHtml
     (marked_parse toy_libs MARKED_OPTIONS (''# Hi'' @ [CHR 0x0A] @ ''<script>x</script>''))
     (SANITIZE_OPTIONS toy_libs) = ''<h1>Hi</h1>'' @ [CHR 0x0A]"
  "sanitizeHtml (marked_parse toy_libs MARKED_OPTIONS ''<script>alert(1)</script>'')
     (SANITIZE_OPTIONS toy_libs) = ''<p></p>''"
  "sanitizeHtml (marked_parse toy_libs MARKED_OPTIONS ''<img src=x onerror=alert(1)>'')
     (SANITIZE_OPTIONS toy_libs) = ''<p><img src='' @ [CHR 0x22] @ ''x'' @ [CHR 0x22] @ ''></p>''"
  by code_simp+

lemma toy_links:
  "sanitizeHtml
     (marked_parse toy_libs MARKED_OPTIONS
        ''<a href=javascript:alert(1) title=t onclick=x()>here</a>'')
     (SANITIZE_OPTIONS toy_libs) =
   ''<p><a title='' @ [CHR 0x22] @ ''t'' @ [CHR 0x22] @ ''>here</a></p>''"
  "sanitizeHtml
     (marked_parse toy_libs MARKED_OPTIONS ''<A HREF=https://example.org/ rel=nofollow>x</A>'')
     (SANITIZE_OPTIONS toy_libs) =
   ''<p><a href='' @ [CHR 0x22] @ ''https://example.org/'' @ [CHR 0x22] @
   '' rel='' @ [CHR 0x22] @ ''nofollow'' @ [CHR 0x22] @ ''>x</a></p>''"
  "sanitizeHtml
     (marked_parse toy_libs MARKED_OPTIONS ''<li value=3 style=x>a <b>c</b></li>'')
     (SANITIZE_OPTIONS toy_libs) =
   ''<p><li value='' @ [CHR 0x22] @ ''3'' @ [CHR 0x22] @ ''>a c</li></p>''"
  by code_simp+

lemma toy_unsanitized:
  "has_script_tag (marked_parse toy_libs MARKED_OPTIONS ''<script>alert(1)</script>'')"
  "has_event_attribute (marked_parse toy_libs MARKED_OPTIONS ''<img src=x onerror=alert(1)>'')"
  by code_simp+

lemma toy_safe: "safe_options (sanitizeHtml_defaults toy_libs)"
  by code_simp

theorem saveNote_html_sanitized_witness:
  "getNote scenario_env ''D'' = Inr None \<and>
   safe_options (sanitizeHtml_defaults toy_libs) \<and>
   (\<exists>n env'. saveNote toy_libs scenario_env 400 ''D'' ''Hello''
                 (''# Hi'' @ [CHR 0x0A] @ ''<script>x</script>'') = Inr (n, env') \<and>
      getNote env' ''D'' = Inr (Some n) \<and> htmlContent n = ''<h1>Hi</h1>'' @ [CHR 0x0A] \<and>
      \<not> has_script_tag (htmlContent n) \<and> \<not> has_event_attribute (htmlContent n)) \<and>
   (\<exists>n env'. saveNote toy_libs scenario_env 400 ''D'' ''Hello''
                 ''<script>alert(1)</script>'' = Inr (n, env') \<and>
      getNote env' ''D'' = Inr (Some n) \<and> htmlContent n = ''<p></p>'' \<and>
      \<not> has_script_tag (htmlContent n) \<and> \<not> has_event_attribute (htmlContent n)) \<and>
   (\<exists>old. getNote scenario_env ''A'' = Inr (Some old) \<and>
      (\<exists>n env'. saveNote toy_libs scenario_env 400 ''A'' ''first''
                    ''<img src=x onerror=alert(1)>'' = Inr (n, env') \<and>
         getNote env' ''A'' = Inr (Some n) \<and>
         htmlContent n = ''<p><img src='' @ [CHR 0x22] @ ''x'' @ [CHR 0x22] @ ''></p>'' \<and>
         \<not> has_script_tag (htmlContent n) \<and> \<not> has_event_attribute (htmlContent n))) \<and>
   has_script_tag (marked_parse toy_libs MARKED_OPTIONS ''<script>alert(1)</script>'') \<and>
   has_event_attribute (marked_parse toy_libs MARKED_OPTIONS ''<img src=x onerror=alert(1)>'')"
proof -
  have g1: "getNote scenario_env ''D'' = Inr None" by (rule getNote_scenario)
  have g2: "getNote scenario_env ''A'' = Inr (Some \<lparr>id' = ''A'', title = ''first'',
      created = 100, updated = 150, content = ''a'', htmlContent = ''a''\<rparr>)"
    by (rule getNote_scenario)
  have 1: "\<exists>n env'. saveNote toy_libs scenario_env 400 ''D'' ''Hello''
                 (''# Hi'' @ [CHR 0x0A] @ ''<script>x</script>'') = Inr (n, env') \<and>
      getNote env' ''D'' = Inr (Some n) \<and> htmlContent n = ''<h1>Hi</h1>'' @ [CHR 0x0A] \<and>
      \<not> has_script_tag (htmlContent n) \<and> \<not> has_event_attribute (htmlContent n)"
  proof -
    from saveNote_html_sanitized [OF g1 toy_safe, of 400 "''Hello''"
        "''# Hi'' @ [CHR 0x0A] @ ''<script>x</script>''"]
    obtain n env' where
      s: "saveNote toy_libs scenario_env 400 ''D'' ''Hello''
            (''# Hi'' @ [CHR 0x0A] @ ''<script>x</script>'') = Inr (n, env')"
      and g: "getNote env' ''D'' = Inr (Some n)"
      and c: "content n = ''# Hi'' @ [CHR 0x0A] @ ''<script>x</script>''"
      and h: "htmlContent n =
          sanitizeHtml (marked_parse toy_libs MARKED_OPTIONS (content n))
            (SANITIZE_OPTIONS toy_libs)"
      and safe: "\<not> has_script_tag (htmlContent n)" "\<not> has_event_attribute (htmlContent n)"
      by blast
    from h have "htmlContent n = ''<h1>Hi</h1>'' @ [CHR 0x0A]"
      by (simp only: c toy_sanitized)
    with s g safe show ?thesis by (intro exI conjI)
  qed
  have 2: "\<exists>n env'. saveNote toy_libs scenario_env 400 ''D'' ''Hello''
                 ''<script>alert(1)</script>'' = Inr (n, env') \<and>
      getNote env' ''D'' = Inr (Some n) \<and> htmlContent n = ''<p></p>'' \<and>
      \<not> has_script_tag (htmlContent n) \<and> \<not> has_event_attribute (htmlContent n)"
  proof -
    from saveNote_html_sanitized [OF g1 toy_safe, of 400 "''Hello''"
        "''<script>alert(1)</script>''"]
    obtain n env' where
      s: "saveNote toy_libs scenario_env 400 ''D'' ''Hello'' ''<script>alert(1)</script>'' =
          Inr (n, env')"
      and g: "getNote env' ''D'' = Inr (Some n)"
      and c: "content n = ''<script>alert(1)</script>''"
      and h: "htmlContent n =
          sanitizeHtml (marked_parse toy_libs MARKED_OPTIONS (content n))
            (SANITIZE_OPTIONS toy_libs)"
      and safe: "\<not> has_script_tag (htmlContent n)" "\<not> has_event_attribute (htmlContent n)"
      by blast
    from h have "htmlContent n = ''<p></p>''"
      by (simp only: c toy_sanitized)
    with s g safe show ?thesis by (intro exI conjI)
  qed
  have 3: "\<exists>n env'. saveNote toy_libs scenario_env 400 ''A'' ''first''
                    ''<img src=x onerror=alert(1)>'' = Inr (n, env') \<and>
         getNote env' ''A'' = Inr (Some n) \<and>
         htmlContent n = ''<p><img src='' @ [CHR 0x22] @ ''x'' @ [CHR 0x22] @ ''></p>'' \<and>
         \<not> has_script_tag (htmlContent n) \<and> \<not> has_event_attribute (htmlContent n)"
  proof -
    from saveNote_html_sanitized [OF g2 toy_safe, of 400 "''first''"
        "''<img src=x onerror=alert(1)>''"]
    obtain n env' where
      s: "saveNote toy_libs scenario_env 400 ''A'' ''first'' ''<img src=x onerror=alert(1)>'' =
          Inr (n, env')"
      and g: "getNote env' ''A'' = Inr (Some n)"
      and c: "content n = ''<img src=x onerror=alert(1)>''"
      and h: "htmlContent n =
          sanitizeHtml (marked_parse toy_libs MARKED_OPTIONS (content n))
            (SANITIZE_OPTIONS toy_libs)"
      and safe: "\<not> has_script_tag (htmlContent n)" "\<not> has_event_attribute (htmlContent n)"
      by blast
    from h have "htmlContent n = ''<p><img src='' @ [CHR 0x22] @ ''x'' @ [CHR 0x22] @ ''></p>''"
      by (simp only: c toy_sanitized)
    with s g safe show ?thesis by (intro exI conjI)
  qed
  have 4: "\<exists>old. getNote scenario_env ''A'' = Inr (Some old) \<and>
      (\<exists>n env'. saveNote toy_libs scenario_env 400 ''A'' ''first''
                    ''<img src=x onerror=alert(1)>'' = Inr (n, env') \<and>
         getNote env' ''A'' = Inr (Some n) \<and>
         htmlContent n = ''<p><img src='' @ [CHR 0x22] @ ''x'' @ [CHR 0x22] @ ''></p>'' \<and>
         \<not> has_script_tag (htmlContent n) \<and> \<not> has_event_attribute (htmlContent n))"
    using conjI [OF g2 3]
    by (rule exI [where x = "\<lparr>id' = ''A'', title = ''first'', created = 100, updated = 150,
      content = ''a'', htmlContent = ''a''\<rparr>"])
  from g1 toy_safe 1 2 4 toy_unsanitized show ?thesis by (intro conjI)
qed

text \<open>
  The condition on the default options cannot be dropped: had the package's defaults
  permitted \<open>script\<close>, so would \<open>SANITIZE_OPTIONS\<close>, which only adds to their tags.
\<close>

lemma defaults_matter:
  "has_script_tag
     (sanitizeHtml ''<script>x</script>''
        (SANITIZE_OPTIONS
           (toy_libs\<lparr>sanitizeHtml_defaults :=
              (sanitizeHtml_defaults toy_libs)\<lparr>allowedTags := [''script'']\<rparr>\<rparr>)))"
  by code_simp

subsection \<open>Updating\<close>

text \<open>
  C3, amended: on a store where the read of the id does not fail, \<open>saveNote\<close> followed by
  \<open>getNote\<close> gives a note with the id, the title and the content that were passed and with
  \<open>updated\<close> equal to the time of the write. With no prior record it is a create under the
  supplied id, with \<open>created\<close> the time of the write, and not an error. With a prior
  record whose \<open>created\<close> is not 0, \<open>created\<close> is the prior one; and \<open>updated\<close> is at least
  the prior \<open>updated\<close> when the clock has not gone back behind it.
\<close>

theorem saveNote_roundtrip:
  assumes "getNote env i = Inr existing"
  shows "\<exists>n env'. saveNote lib env now i t c = Inr (n, env') \<and>
           getNote env' i = Inr (Some n) \<and>
           id' n = i \<and> title n = t \<and> content n = c \<and> updated n = now \<and>
           (existing = None \<longrightarrow> created n = now) \<and>
           (\<forall>old. existing = Some old \<longrightarrow>
              (created old \<noteq> 0 \<longrightarrow> created n = created old) \<and>
              (updated old \<le> now \<longrightarrow> updated old \<le> updated n))"
proof -
  from saveNote_Inr [OF assms, of lib now t c] obtain n env' where
    "saveNote lib env now i t c = Inr (n, env')" "getNote env' i = Inr (Some n)"
    "n = \<lparr>id' = i, title = t,
          created = (case existing of
                       None \<Rightarrow> now
                     | Some ex \<Rightarrow> if created ex \<noteq> 0 then created ex else now),
          updated = now, content = c,
          htmlContent =
            sanitizeHtml (marked_parse lib MARKED_OPTIONS c) (SANITIZE_OPTIONS lib)\<rparr>"
    by blast
  then show ?thesis
    by (intro exI [of _ n] exI [of _ env']) simp
qed

theorem saveNote_roundtrip_witness:
  "getNote scenario_env ''D'' = Inr None \<and>
   (\<exists>n env'. saveNote toy_libs scenario_env 400 ''D'' ''fourth'' ''d'' = Inr (n, env') \<and>
      getNote env' ''D'' = Inr (Some n) \<and> title n = ''fourth'' \<and> content n = ''d'' \<and>
      created n = 400 \<and> updated n = 400) \<and>
   (\<exists>old. getNote scenario_env ''A'' = Inr (Some old) \<and> created old = 100 \<and>
      updated old = 150 \<and>
      (\<exists>n env'. saveNote toy_libs scenario_env 400 ''A'' ''again'' ''a2'' = Inr (n, env') \<and>
         getNote env' ''A'' = Inr (Some n) \<and> title n = ''again'' \<and> content n = ''a2'' \<and>
         created n = 100 \<and> updated n = 400))"
proof -
  have g1: "getNote scenario_env ''D'' = Inr None" by (rule getNote_scenario)
  have g2: "getNote scenario_env ''A'' = Inr (Some \<lparr>id' = ''A'', title = ''first'',
      created = 100, updated = 150, content = ''a'', htmlContent = ''a''\<rparr>)"
    by (rule getNote_scenario)
  have 1: "\<exists>n env'. saveNote toy_libs scenario_env 400 ''D'' ''fourth'' ''d'' = Inr (n, env') \<and>
      getNote env' ''D'' = Inr (Some n) \<and> title n = ''fourth'' \<and> content n = ''d'' \<and>
      created n = 400 \<and> updated n = 400"
    using saveNote_roundtrip [OF g1, of toy_libs 400 "''fourth''" "''d''"] by auto
  have 2: "\<exists>n env'. saveNote toy_libs scenario_env 400 ''A'' ''again'' ''a2'' = Inr (n, env') \<and>
         getNote env' ''A'' = Inr (Some n) \<and> title n = ''again'' \<and> content n = ''a2'' \<and>
         created n = 100 \<and> updated n = 400"
    using saveNote_roundtrip [OF g2, of toy_libs 400 "''again''" "''a2''"] by auto
  from g1 g2 1 2 show ?thesis by simp
qed

text \<open>
  C3 as it is stated fails in two places. A record whose \<open>created\<close> is 0 does not keep
  it through an update at time 1000. And a record last updated at 150 that is written
  again when \<open>Date.now()\<close> gives 120 has \<open>updated\<close> 120, below the prior one.
\<close>

theorem saveNote_created_counterexample:
  "getNote epoch_env ''Z'' =
     Inr (Some \<lparr>id' = ''Z'', title = ''zero'', created = 0, updated = 0,
                content = ''z'', htmlContent = ''z''\<rparr>) \<and>
   \<not> isl (saveNote toy_libs epoch_env 1000 ''Z'' ''zero'' ''z'') \<and>
   getNote (snd (projr (saveNote toy_libs epoch_env 1000 ''Z'' ''zero'' ''z''))) ''Z'' =
     Inr (Some (fst (projr (saveNote toy_libs epoch_env 1000 ''Z'' ''zero'' ''z'')))) \<and>
   created (fst (projr (saveNote toy_libs epoch_env 1000 ''Z'' ''zero'' ''z''))) = 1000 \<and>
   getNote scenario_env ''A'' =
     Inr (Some \<lparr>id' = ''A'', title = ''first'', created = 100, updated = 150,
                content = ''a'', htmlContent = ''a''\<rparr>) \<and>
   \<not> isl (saveNote toy_libs scenario_env 120 ''A'' ''first'' ''a'') \<and>
   getNote (snd (projr (saveNote toy_libs scenario_env 120 ''A'' ''first'' ''a''))) ''A'' =
     Inr (Some (fst (projr (saveNote toy_libs scenario_env 120 ''A'' ''first'' ''a'')))) \<and>
   updated (fst (projr (saveNote toy_libs scenario_env 120 ''A'' ''first'' ''a''))) = 120"
  by (simp add: getNote_epoch getNote_scenario saveNote_def Let_def getNote_put)

text \<open>
  C10: \<open>saveNote\<close> keeps the prior \<open>created\<close> only when it is truthy. An update of an
  existing note whose \<open>created\<close> is 0 sets \<open>created\<close> to the time of the write; an update of
  one whose \<open>created\<close> is not 0 keeps it.
\<close>

theorem saveNote_created_truthy:
  assumes "getNote env i = Inr (Some old)"
  shows "\<exists>n env'. saveNote lib env now i t c = Inr (n, env') \<and>
           getNote env' i = Inr (Some n) \<and>
           (created old = 0 \<longrightarrow> created n = now) \<and>
           (created old \<noteq> 0 \<longrightarrow> created n = created old)"
proof -
  from saveNote_Inr [OF assms, of lib now t c] obtain n env' where
    "saveNote lib env now i t c = Inr (n, env')" "getNote env' i = Inr (Some n)"
    "created n = (if created old \<noteq> 0 then created old else now)"
    by force
  then show ?thesis
    by (intro exI [of _ n] exI [of _ env']) simp
qed

theorem saveNote_created_truthy_witness:
  "(\<exists>old. getNote epoch_env ''Z'' = Inr (Some old) \<and> created old = 0 \<and>
      (\<exists>n env'. saveNote toy_libs epoch_env 1000 ''Z'' ''zero'' ''z'' = Inr (n, env') \<and>
         getNote env' ''Z'' = Inr (Some n) \<and> created n = 1000)) \<and>
   (\<exists>old. getNote scenario_env ''A'' = Inr (Some old) \<and> created old \<noteq> 0 \<and>
      (\<exists>n env'. saveNote toy_libs scenario_env 1000 ''A'' ''first'' ''a'' = Inr (n, env') \<and>
         getNote env' ''A'' = Inr (Some n) \<and> created n = created old))"
proof -
  have g2: "getNote scenario_env ''A'' = Inr (Some \<lparr>id' = ''A'', title = ''first'',
      created = 100, updated = 150, content = ''a'', htmlContent = ''a''\<rparr>)"
    by (rule getNote_scenario)
  have 1: "\<exists>n env'. saveNote toy_libs epoch_env 1000 ''Z'' ''zero'' ''z'' = Inr (n, env') \<and>
         getNote env' ''Z'' = Inr (Some n) \<and> created n = 1000"
    using saveNote_created_truthy [OF getNote_epoch, of toy_libs 1000 "''zero''" "''z''"] by auto
  have 2: "\<exists>n env'. saveNote toy_libs scenario_env 1000 ''A'' ''first'' ''a'' = Inr (n, env') \<and>
         getNote env' ''A'' = Inr (Some n) \<and> created n = 100"
    using saveNote_created_truthy [OF g2, of toy_libs 1000 "''first''" "''a''"] by auto
  from getNote_epoch g2 1 2 show ?thesis by simp
qed

subsection \<open>Deleting\<close>

text \<open>
  C8: \<open>deleteNote\<close> of an id that reads as absent returns false, leaves the store as it
  was and is not a failure; of an id that reads as a note it returns true and removes the
  key. Whenever it returns, a read of the id in the state it leaves gives absent, and the
  result is true exactly when a note was there before.
\<close>

theorem deleteNote_result:
  "(getNote env i = Inr None \<longrightarrow> deleteNote env i = Inr (False, env)) \<and>
   (\<forall>n. getNote env i = Inr (Some n) \<longrightarrow>
      (\<exists>env'. deleteNote env i = Inr (True, env') \<and> getNote env' i = Inr None \<and>
         kv_get (NOTES_KV env') (''note:'' @ i) = None)) \<and>
   (\<forall>b env'. deleteNote env i = Inr (b, env') \<longrightarrow>
      getNote env' i = Inr None \<and> (b \<longleftrightarrow> (\<exists>n. getNote env i = Inr (Some n))))"
  by (auto simp: deleteNote_def getNote_delete kv_get_delete split: sum.splits option.splits)

theorem deleteNote_result_witness:
  "getNote scenario_env ''D'' = Inr None \<and> deleteNote scenario_env ''D'' = Inr (False, scenario_env) \<and>
   (\<exists>n. getNote scenario_env ''A'' = Inr (Some n)) \<and>
   (\<exists>env'. deleteNote scenario_env ''A'' = Inr (True, env') \<and> getNote env' ''A'' = Inr None)"
proof -
  have g1: "getNote scenario_env ''D'' = Inr None" by (rule getNote_scenario)
  have g2: "getNote scenario_env ''A'' = Inr (Some \<lparr>id' = ''A'', title = ''first'',
      created = 100, updated = 150, content = ''a'', htmlContent = ''a''\<rparr>)"
    by (rule getNote_scenario)
  have 1: "deleteNote scenario_env ''D'' = Inr (False, scenario_env)"
    using deleteNote_result [of scenario_env "''D''"] g1 by blast
  have 2: "\<exists>env'. deleteNote scenario_env ''A'' = Inr (True, env') \<and> getNote env' ''A'' = Inr None"
    using deleteNote_result [of scenario_env "''A''"] g2 by blast
  from g1 g2 1 2 show ?thesis by simp
qed

subsection \<open>Listing\<close>

lemma mset_insert_by: "mset (insert_by cmp x xs) = add_mset x (mset xs)"
  by (induction xs) auto

lemma mset_sort_by: "mset (sort_by cmp xs) = mset xs"
  unfolding sort_by_def by (induction xs) (auto simp: mset_insert_by)

lemma set_insert_by: "set (insert_by cmp x xs) = insert x (set xs)"
  by (induction xs) auto

lemma sorted_insert_by:
  "sorted_wrt (\<lambda>a b. created b \<le> created a) xs \<Longrightarrow>
   sorted_wrt (\<lambda>a b. created b \<le> created a)
     (insert_by (\<lambda>a b. created b - created a) (x::NoteMeta) xs)"
  by (induction xs) (auto simp: set_insert_by)

lemma sorted_sort_by:
  "sorted_wrt (\<lambda>a b. created b \<le> created a)
     (sort_by (\<lambda>a b. created b - created a) (xs::NoteMeta list))"
  unfolding sort_by_def by (induction xs) (auto simp: sorted_insert_by)

lemma metas_eq:
  "map the (filter (\<lambda>meta. meta \<noteq> None) (map (\<lambda>key. snd key) (kv_list kv ''note:''))) =
   List.map_filter (\<lambda>(k, e). if prefix ''note:'' k then metadata e else None) kv"
  unfolding kv_list_def by (induction kv) (auto simp: map_filter_simps)

lemma getAllNotes_eq:
  "getAllNotes env = sort_by (\<lambda>a b. created b - created a) (note_metas env)"
  by (simp only: getAllNotes_def Let_def note_metas_def metas_eq)

text \<open>
  C5: in every state of the store, \<open>getAllNotes\<close> returns the metadata held under the keys
  of notes, each as often as it is held, and in the returned list the \<open>created\<close> of every
  element is at least the \<open>created\<close> of the element after it.
\<close>

theorem getAllNotes_sorted:
  "(\<forall>i. Suc i < length (getAllNotes env) \<longrightarrow>
      created (getAllNotes env ! Suc i) \<le> created (getAllNotes env ! i)) \<and>
   mset (getAllNotes env) = mset (note_metas env)"
proof -
  have "sorted_wrt (\<lambda>a b. created b \<le> created a) (getAllNotes env)"
    by (simp add: getAllNotes_eq sorted_sort_by)
  then have "\<forall>i. Suc i < length (getAllNotes env) \<longrightarrow>
      created (getAllNotes env ! Suc i) \<le> created (getAllNotes env ! i)"
    by (simp add: sorted_wrt_iff_nth_less)
  then show ?thesis by (simp add: getAllNotes_eq mset_sort_by)
qed

lemma getAllNotes_scenario:
  "getAllNotes scenario_env =
     [\<lparr>id' = ''C'', title = ''third'', created = 300, updated = 300\<rparr>,
      \<lparr>id' = ''B'', title = ''second'', created = 200, updated = 200\<rparr>,
      \<lparr>id' = ''A'', title = ''first'', created = 100, updated = 150\<rparr>]"
  by (simp add: getAllNotes_def Let_def kv_list_def scenario_env_def stored_def sort_by_def)

theorem getAllNotes_sorted_witness:
  "Suc 0 < length (getAllNotes scenario_env) \<and>
   created (getAllNotes scenario_env ! Suc 0) \<le> created (getAllNotes scenario_env ! 0) \<and>
   map created (getAllNotes scenario_env) = [300, 200, 100]"
proof -
  have l: "Suc 0 < length (getAllNotes scenario_env)"
    by (simp add: getAllNotes_scenario)
  from getAllNotes_sorted [of scenario_env] l
  have "created (getAllNotes scenario_env ! Suc 0) \<le> created (getAllNotes scenario_env ! 0)"
    by blast
  with l show ?thesis by (simp add: getAllNotes_scenario)
qed

subsection \<open>Navigation\<close>

lemma findIndex_lower: "- 1 \<le> findIndex p xs"
  by (induction xs) (auto simp: Let_def)

lemma findIndex_found:
  "0 \<le> findIndex p xs \<Longrightarrow>
   nat (findIndex p xs) < length xs \<and> p (xs ! nat (findIndex p xs))"
proof (induction xs)
  case Nil
  then show ?case by simp
next
  case (Cons x xs)
  show ?case
  proof (cases "p x")
    case True
    then show ?thesis by simp
  next
    case False
    with Cons.prems have r: "0 \<le> findIndex p xs"
      by (simp add: Let_def split: if_splits)
    with False have "findIndex p (x # xs) = findIndex p xs + 1"
      by (simp add: Let_def)
    moreover from r have "nat (findIndex p xs + 1) = Suc (nat (findIndex p xs))" by simp
    ultimately show ?thesis using Cons.IH [OF r] by simp
  qed
qed

lemma findIndex_distinct:
  "distinct (map f xs) \<Longrightarrow> k < length xs \<Longrightarrow>
   findIndex (\<lambda>n. f n = f (xs ! k)) xs = int k"
proof (induction xs arbitrary: k)
  case Nil
  then show ?case by simp
next
  case (Cons x xs)
  show ?case
  proof (cases k)
    case 0
    then show ?thesis by simp
  next
    case (Suc j)
    with Cons.prems have j: "j < length xs" and d: "distinct (map f xs)"
      and nx: "f x \<notin> f ` set xs" by auto
    from j nx have "f x \<noteq> f (xs ! j)" by (metis imageI nth_mem)
    moreover have "findIndex (\<lambda>n. f n = f (xs ! j)) xs = int j"
      by (rule Cons.IH [OF d j])
    ultimately show ?thesis using Suc by (simp add: Let_def)
  qed
qed

lemma store_ok_Cons: "store_ok (a # kv) \<Longrightarrow> store_ok kv"
  by (simp add: store_ok_def)

lemma note_metas_keys:
  "store_ok kv \<Longrightarrow>
   m \<in> set (List.map_filter (\<lambda>(k, e). if prefix ''note:'' k then metadata e else None) kv) \<Longrightarrow>
   ''note:'' @ id' m \<in> fst ` set kv"
proof (induction kv)
  case Nil
  then show ?case by (simp add: map_filter_simps)
next
  case (Cons a kv)
  obtain k e where a: "a = (k, e)" by (cases a)
  show ?case
  proof (cases "prefix ''note:'' k \<and> metadata e = Some m")
    case True
    with Cons.prems(1) a have "k = ''note:'' @ id' m" by (simp add: store_ok_def)
    with a show ?thesis by simp
  next
    case False
    with Cons.prems(2) a have
      "m \<in> set (List.map_filter (\<lambda>(k, e). if prefix ''note:'' k then metadata e else None) kv)"
      by (auto simp: map_filter_simps split: if_splits option.splits)
    with Cons.IH [OF store_ok_Cons [OF Cons.prems(1)]] show ?thesis by auto
  qed
qed

lemma note_metas_distinct:
  "store_ok kv \<Longrightarrow>
   distinct (map id'
     (List.map_filter (\<lambda>(k, e). if prefix ''note:'' k then metadata e else None) kv))"
proof (induction kv)
  case Nil
  then show ?case by (simp add: map_filter_simps)
next
  case (Cons a kv)
  obtain k e where a: "a = (k, e)" by (cases a)
  have ok: "store_ok kv" by (rule store_ok_Cons [OF Cons.prems])
  note IH = Cons.IH [OF ok]
  show ?case
  proof (cases "prefix ''note:'' k")
    case False
    with a IH show ?thesis by (simp add: map_filter_simps)
  next
    case True
    show ?thesis
    proof (cases "metadata e")
      case None
      with True a IH show ?thesis by (simp add: map_filter_simps)
    next
      case (Some m)
      with True Cons.prems a have k: "k = ''note:'' @ id' m" and nk: "k \<notin> fst ` set kv"
        by (auto simp: store_ok_def)
      have "id' m \<notin> id' ` set (List.map_filter
          (\<lambda>(k, e). if prefix ''note:'' k then metadata e else None) kv)"
      proof
        assume "id' m \<in> id' ` set (List.map_filter
          (\<lambda>(k, e). if prefix ''note:'' k then metadata e else None) kv)"
        then obtain m' where m': "m' \<in> set (List.map_filter
          (\<lambda>(k, e). if prefix ''note:'' k then metadata e else None) kv)"
          and eq: "id' m = id' m'" by auto
        from note_metas_keys [OF ok m'] eq k nk show False by simp
      qed
      with True Some a IH show ?thesis by (simp add: map_filter_simps)
    qed
  qed
qed

lemma getAllNotes_distinct:
  assumes "store_ok (NOTES_KV env)"
  shows "distinct (map id' (getAllNotes env))"
proof -
  have "mset (map id' (getAllNotes env)) = mset (map id' (note_metas env))"
    by (simp add: getAllNotes_eq mset_sort_by)
  moreover have "distinct (map id' (note_metas env))"
    unfolding note_metas_def by (rule note_metas_distinct [OF assms])
  ultimately show ?thesis by (metis mset_eq_imp_distinct_iff)
qed

lemma previous_then_next:
  assumes ok: "store_ok (NOTES_KV env)"
    and b: "getNote env b = Inr (Some nb)"
    and prev: "getPreviousNoteId env a = Inr (Some b)"
  shows "getNextNoteId env b = Inr (Some a)"
proof -
  define ns where "ns = getAllNotes env"
  define ci where "ci = findIndex (\<lambda>n. id' n = a) ns"
  from prev have ci: "0 \<le> ci" "ci < int (length ns) - 1"
    and bv: "b = id' (ns ! nat (ci + 1))"
    by (auto simp: getPreviousNoteId_def Let_def ns_def ci_def
        split: sum.splits option.splits if_splits)
  from findIndex_found [of "\<lambda>n. id' n = a" ns] ci(1)
  have av: "id' (ns ! nat ci) = a" by (simp add: ci_def)
  have d: "distinct (map id' ns)"
    unfolding ns_def by (rule getAllNotes_distinct [OF ok])
  from ci have k: "nat (ci + 1) < length ns" by simp
  from findIndex_distinct [OF d k] bv ci(1)
  have "findIndex (\<lambda>n. id' n = b) ns = ci + 1" by simp
  with b ci(1) av show ?thesis
    by (simp add: getNextNoteId_def Let_def ns_def [symmetric])
qed

lemma next_then_previous:
  assumes ok: "store_ok (NOTES_KV env)"
    and a: "getNote env a = Inr (Some na)"
    and nxt: "getNextNoteId env b = Inr (Some a)"
  shows "getPreviousNoteId env a = Inr (Some b)"
proof -
  define ns where "ns = getAllNotes env"
  define cj where "cj = findIndex (\<lambda>n. id' n = b) ns"
  from nxt have cj: "0 < cj" and av: "a = id' (ns ! nat (cj - 1))"
    by (auto simp: getNextNoteId_def Let_def ns_def cj_def
        split: sum.splits option.splits if_splits)
  from findIndex_found [of "\<lambda>n. id' n = b" ns] cj
  have len: "nat cj < length ns" and bv: "id' (ns ! nat cj) = b"
    by (simp_all add: cj_def)
  have d: "distinct (map id' ns)"
    unfolding ns_def by (rule getAllNotes_distinct [OF ok])
  from len cj have k: "nat (cj - 1) < length ns" by simp
  from findIndex_distinct [OF d k] av cj
  have "findIndex (\<lambda>n. id' n = a) ns = cj - 1" by simp
  with a cj len bv show ?thesis
    by (simp add: getPreviousNoteId_def Let_def ns_def [symmetric])
qed

lemma absent_no_neighbours:
  "getNote env i = Inr None \<Longrightarrow>
   getPreviousNoteId env i = Inr None \<and> getNextNoteId env i = Inr None"
  by (simp add: getPreviousNoteId_def getNextNoteId_def)

text \<open>
  C4: on a store that the writes of the sources have built, for notes A and B that are both
  present, if \<open>getPreviousNoteId\<close> of A is B then \<open>getNextNoteId\<close> of B is A, and if
  \<open>getNextNoteId\<close> of B is A then \<open>getPreviousNoteId\<close> of A is B. For an id whose note
  is absent both return absent.
\<close>

theorem previous_next_inverse:
  "(store_ok (NOTES_KV env) \<and> getNote env a = Inr (Some na) \<and> getNote env b = Inr (Some nb) \<and>
      getPreviousNoteId env a = Inr (Some b) \<longrightarrow> getNextNoteId env b = Inr (Some a)) \<and>
   (store_ok (NOTES_KV env) \<and> getNote env a = Inr (Some na) \<and> getNote env b = Inr (Some nb) \<and>
      getNextNoteId env b = Inr (Some a) \<longrightarrow> getPreviousNoteId env a = Inr (Some b)) \<and>
   (getNote env i = Inr None \<longrightarrow>
      getPreviousNoteId env i = Inr None \<and> getNextNoteId env i = Inr None)"
  using previous_then_next [of env b nb a] next_then_previous [of env a na b]
    absent_no_neighbours [of env i]
  by blast

lemma store_ok_scenario: "store_ok (NOTES_KV scenario_env)"
  by (simp add: store_ok_def scenario_env_def stored_def)

lemma getNote_scenario_BC:
  "getNote scenario_env ''B'' =
     Inr (Some \<lparr>id' = ''B'', title = ''second'', created = 200, updated = 200,
                content = ''b'', htmlContent = ''b''\<rparr>)"
  "getNote scenario_env ''C'' =
     Inr (Some \<lparr>id' = ''C'', title = ''third'', created = 300, updated = 300,
                content = ''c'', htmlContent = ''c''\<rparr>)"
  by (simp_all add: getNote_def scenario_env_def stored_def kv_get_json_def kv_get_def)

lemma previous_scenario: "getPreviousNoteId scenario_env ''C'' = Inr (Some ''B'')"
  by (simp add: getPreviousNoteId_def getNote_scenario_BC getAllNotes_scenario)

theorem previous_next_inverse_witness:
  "store_ok (NOTES_KV scenario_env) \<and>
   (\<exists>nb nc. getNote scenario_env ''C'' = Inr (Some nc) \<and>
      getNote scenario_env ''B'' = Inr (Some nb)) \<and>
   getPreviousNoteId scenario_env ''C'' = Inr (Some ''B'') \<and>
   getNextNoteId scenario_env ''B'' = Inr (Some ''C'') \<and>
   getNote scenario_env ''D'' = Inr None \<and>
   getPreviousNoteId scenario_env ''D'' = Inr None \<and>
   getNextNoteId scenario_env ''D'' = Inr None"
proof -
  note t = previous_next_inverse [of scenario_env "''C''"
      "\<lparr>id' = ''C'', title = ''third'', created = 300, updated = 300,
        content = ''c'', htmlContent = ''c''\<rparr>" "''B''"
      "\<lparr>id' = ''B'', title = ''second'', created = 200, updated = 200,
        content = ''b'', htmlContent = ''b''\<rparr>" "''D''"]
  have 1: "getNextNoteId scenario_env ''B'' = Inr (Some ''C'')"
    using t store_ok_scenario getNote_scenario_BC previous_scenario by blast
  have 2: "getPreviousNoteId scenario_env ''D'' = Inr None \<and>
      getNextNoteId scenario_env ''D'' = Inr None"
    using t getNote_scenario(2) by blast
  from 1 2 store_ok_scenario getNote_scenario_BC previous_scenario getNote_scenario(2)
  show ?thesis by simp
qed

subsection \<open>The writes keep the store well formed\<close>

lemma store_ok_empty: "store_ok []"
  by (simp add: store_ok_def)

lemma store_ok_put:
  assumes "store_ok kv"
    and "\<And>x. m = Some x \<Longrightarrow> prefix ''note:'' k \<Longrightarrow> k = ''note:'' @ id' x"
  shows "store_ok (kv_put kv k v m ttl)"
proof -
  have "list_all P (AList.update k e kv)" if "list_all P kv" "P (k, e)" for P e
    using that by (induction kv) auto
  with assms show ?thesis
    by (auto simp: store_ok_def kv_put_def distinct_update split: option.splits)
qed

lemma store_ok_delete: "store_ok kv \<Longrightarrow> store_ok (kv_delete kv k)"
  by (auto simp: store_ok_def kv_delete_def AList.delete_eq list_all_iff distinct_map_filter)

lemma store_ok_saveNote:
  "store_ok (NOTES_KV env) \<Longrightarrow> saveNote lib env now i t c = Inr (n, env') \<Longrightarrow>
   store_ok (NOTES_KV env')"
  by (auto simp: saveNote_def Let_def split: sum.splits intro!: store_ok_put)

lemma store_ok_deleteNote:
  "store_ok (NOTES_KV env) \<Longrightarrow> deleteNote env i = Inr (b, env') \<Longrightarrow>
   store_ok (NOTES_KV env')"
  by (auto simp: deleteNote_def split: sum.splits option.splits intro!: store_ok_delete)

lemma store_ok_createSession:
  "store_ok (NOTES_KV env) \<Longrightarrow> store_ok (NOTES_KV (snd (createSession env rnd)))"
  by (auto simp: createSession_def Let_def intro!: store_ok_put)

lemma store_ok_deleteSession:
  "store_ok (NOTES_KV env) \<Longrightarrow> store_ok (NOTES_KV (deleteSession env token))"
  by (auto simp: deleteSession_def intro!: store_ok_delete)

end
